theory Spec2Isabelle
  imports
    Main
    "HOL-Library.Char_ord"
    "HOL-Library.List_Lexorder"
    "HOL-Library.Product_Lexorder"
    "HOL-Library.Sublist"
    "HOL-Library.Multiset"
begin

section \<open>The Senate web scraper (web-scraper.py)\<close>

text \<open>
  The script runs four functions in a line: \<open>get_links\<close> (fetch),
  \<open>filter_json_to_frame\<close> (project the JSON records into a table),
  \<open>create_vertex_and_chord_lists\<close> (vertex and edge lists) and \<open>plot_chord_chart\<close>
  (render). The first three are embedded here. A Python exception is a value \<open>Inl e\<close>
  of a sum type, a normal return is \<open>Inr v\<close>.

  A Python \<open>str\<close> is a sequence of code points. It is modelled as a HOL \<open>string\<close>, each
  \<open>char\<close> read as one code point in the range 0 to 255; code points from 256 on are
  outside the model.
\<close>

subsection \<open>Exceptions\<close>

text \<open>
  \<open>ValueError\<close> is raised at two places of the script, by \<open>int(...)\<close> and by
  \<open>list.index(...)\<close>; the two get a constructor each so that theorems can tell them
  apart. \<open>FetchError\<close> stands for whatever \<open>requests.get\<close> or \<open>json.loads\<close> raise.
\<close>

datatype pyerror =
    IndexError
  | ValueError_int
  | ValueError_index
  | KeyError
  | TypeError
  | FetchError

text \<open>A comprehension or loop over a list whose body may raise: the first exception ends it.\<close>

fun map_raise :: "('a \<Rightarrow> pyerror + 'b) \<Rightarrow> 'a list \<Rightarrow> pyerror + 'b list" where
  "map_raise f [] = Inr []"
| "map_raise f (x # xs) =
     (case f x of
        Inl e \<Rightarrow> Inl e
      | Inr y \<Rightarrow> (case map_raise f xs of Inl e \<Rightarrow> Inl e | Inr ys \<Rightarrow> Inr (y # ys)))"

subsection \<open>Python built-ins used by the sort key\<close>

text \<open>
  The code points below 256 that \<open>int\<close> skips before and after the digits: the ASCII
  whitespace 9 to 13 and 32, and the next-line and no-break space characters 133 and 160.
  The separators 28 to 31, which \<open>str.isspace\<close> accepts, are not among them: \<open>int\<close>
  rejects a string that has one.
\<close>

definition int_isspace :: "char \<Rightarrow> bool" where
  "int_isspace c = ((of_char c :: nat) \<in> {9, 10, 11, 12, 13, 32, 133, 160})"

text \<open>The decimal digits \<open>0\<close> to \<open>9\<close>, the only code points below 256 that \<open>int\<close> reads.\<close>

definition is_decimal :: "char \<Rightarrow> bool" where
  "is_decimal c = (CHR ''0'' \<le> c \<and> c \<le> CHR ''9'')"

definition digit_value :: "char \<Rightarrow> int" where
  "digit_value c = int (of_char c) - 48"

text \<open>
  \<open>str.isdigit\<close> on one code point below 256: the decimal digits and the superscripts
  two, three and one (code points 178, 179 and 185), which \<open>isdigit\<close> accepts and
  \<open>int\<close> rejects.
\<close>

definition py_isdigit :: "char \<Rightarrow> bool" where
  "py_isdigit c = (is_decimal c \<or> (of_char c :: nat) \<in> {178, 179, 185})"

text \<open>\<open>s.partition(' ')[0]\<close>: the text before the first space, all of \<open>s\<close> if it has none.\<close>

definition partition_head :: "string \<Rightarrow> string" where
  "partition_head s = takeWhile (\<lambda>c. c \<noteq> CHR '' '') s"

text \<open>The argument of \<open>int\<close> without the whitespace that \<open>int\<close> skips at its two ends.\<close>

definition int_strip :: "string \<Rightarrow> string" where
  "int_strip s = rev (dropWhile int_isspace (rev (dropWhile int_isspace s)))"

text \<open>
  The digits of an integer literal after its first digit, \<open>acc\<close> the value read so far:
  a digit, or one underscore followed by a digit (Python 3.6 and later).
\<close>

fun py_int_digits :: "int \<Rightarrow> string \<Rightarrow> int option" where
  "py_int_digits acc [] = Some acc"
| "py_int_digits acc [c] =
     (if is_decimal c then Some (10 * acc + digit_value c) else None)"
| "py_int_digits acc (c # d # cs) =
     (if is_decimal c then py_int_digits (10 * acc + digit_value c) (d # cs)
      else if c = CHR ''_'' \<and> is_decimal d then py_int_digits acc (d # cs)
      else None)"

definition py_int_unsigned :: "string \<Rightarrow> int option" where
  "py_int_unsigned s =
     (case s of
        [] \<Rightarrow> None
      | c # cs \<Rightarrow> if is_decimal c then py_int_digits (digit_value c) cs else None)"

text \<open>
  \<open>int(s)\<close> in base 10: the whitespace at the two ends is skipped, one sign is allowed,
  then the digits. \<open>None\<close> is the \<open>ValueError\<close>. Python's integers are unbounded; the
  limit that Python 3.11 and later put on the number of digits is not modelled.
\<close>

definition py_int :: "string \<Rightarrow> int option" where
  "py_int s =
     (case int_strip s of
        [] \<Rightarrow> None
      | c # cs \<Rightarrow>
          if c = CHR ''-'' then map_option uminus (py_int_unsigned cs)
          else if c = CHR ''+'' then py_int_unsigned cs
          else py_int_unsigned (c # cs))"

subsection \<open>The sort key\<close>

text \<open>
  The first component of the key is an \<open>int\<close> or \<open>float("inf")\<close>. Python orders an
  \<open>int\<close> below \<open>inf\<close> and \<open>inf\<close> equal to itself.
\<close>

datatype pynum = PyInt int | PyInf

instantiation pynum :: linorder
begin

definition less_eq_pynum :: "pynum \<Rightarrow> pynum \<Rightarrow> bool" where
  "less_eq_pynum a b =
     (case b of
        PyInf \<Rightarrow> True
      | PyInt n \<Rightarrow> (case a of PyInf \<Rightarrow> False | PyInt m \<Rightarrow> m \<le> n))"

definition less_pynum :: "pynum \<Rightarrow> pynum \<Rightarrow> bool" where
  "less_pynum a b = (a \<le> b \<and> \<not> b \<le> (a::pynum))"

instance
proof
  fix x y z :: pynum
  show "(x < y) = (x \<le> y \<and> \<not> y \<le> x)"
    by (simp add: less_pynum_def)
  show "x \<le> x"
    by (simp add: less_eq_pynum_def split: pynum.splits)
  show "x \<le> y \<Longrightarrow> y \<le> z \<Longrightarrow> x \<le> z"
    by (auto simp: less_eq_pynum_def split: pynum.splits)
  show "x \<le> y \<Longrightarrow> y \<le> x \<Longrightarrow> x = y"
    by (auto simp: less_eq_pynum_def split: pynum.splits)
  show "x \<le> y \<or> y \<le> x"
    by (auto simp: less_eq_pynum_def split: pynum.splits)
qed

end

text \<open>
  The key is the tuple \<open>(number, item)\<close>. Python compares tuples lexicographically and
  strings lexicographically by code point, which are the orders of the product and list
  types here.
\<close>

type_synonym sortkey = "pynum \<times> string"

text \<open>
  The lambda of lines 68 to 77:
  \<open>(int(item.partition(' ')[0]) if item[0].isdigit() else float("inf"), item)\<close>.
  \<open>item[0]\<close> raises \<open>IndexError\<close> on the empty string.
\<close>

definition label_key :: "string \<Rightarrow> pyerror + sortkey" where
  "label_key item =
     (case item of
        [] \<Rightarrow> Inl IndexError
      | c # _ \<Rightarrow>
          if py_isdigit c then
            (case py_int (partition_head item) of
               None \<Rightarrow> Inl ValueError_int
             | Some n \<Rightarrow> Inr (PyInt n, item))
          else Inr (PyInf, item))"

text \<open>
  \<open>sorted(xs, key=...)\<close>: the keys of all elements are computed first, in list order,
  then the elements are sorted by key, stably.
\<close>

definition py_sorted :: "string list \<Rightarrow> pyerror + string list" where
  "py_sorted xs =
     (case map_raise label_key xs of
        Inl e \<Rightarrow> Inl e
      | Inr ks \<Rightarrow> Inr (map snd (sort_key fst (zip ks xs))))"

text \<open>\<open>xs.index(x)\<close>: the first position of \<open>x\<close>, or \<open>ValueError\<close>.\<close>

fun py_index :: "string list \<Rightarrow> string \<Rightarrow> pyerror + int" where
  "py_index [] x = Inl ValueError_index"
| "py_index (y # ys) x =
     (if y = x then Inr 0
      else (case py_index ys x of Inl e \<Rightarrow> Inl e | Inr i \<Rightarrow> Inr (i + 1)))"

subsection \<open>The table, the vertices and the chords\<close>

text \<open>
  A row of the DataFrame with the columns \<open>Sponsor\<close>, \<open>Cosponsor\<close> and \<open>Bill\<close>; the
  frame is the list of its rows, row \<open>i\<close> at position \<open>i\<close>.
\<close>

record ('l, 'b) row =
  Sponsor :: 'l
  Cosponsor :: "'l list"
  Bill :: 'b

text \<open>
  The dictionaries \<open>{'group': 0, 'name': label}\<close> and
  \<open>{"source": ..., "target": ..., "value": 1}\<close>, their keys prefixed with \<open>v_\<close> and
  \<open>c_\<close>. The numbers are Python integers.
\<close>

record vertex =
  v_group :: int
  v_name :: string

record chord =
  c_source :: int
  c_target :: int
  c_value :: int

text \<open>
  \<open>set(xs)\<close> followed by iteration: Python fixes no iteration order for a set of
  strings. The order is a parameter \<open>py_set\<close> of the model, of which only this is known:
  it lists each element of \<open>xs\<close> once.
\<close>

definition set_order :: "(string list \<Rightarrow> string list) \<Rightarrow> bool" where
  "set_order py_set = (\<forall>xs. distinct (py_set xs) \<and> set (py_set xs) = set xs)"

text \<open>The inner loop of lines 91 to 96, appending to \<open>chord_list\<close>.\<close>

fun pair_cosponsors ::
  "string list \<Rightarrow> string \<Rightarrow> string list \<Rightarrow> chord list \<Rightarrow> pyerror + chord list" where
  "pair_cosponsors union_labels y_lookup [] chord_list = Inr chord_list"
| "pair_cosponsors union_labels y_lookup (x_lookup # x_list) chord_list =
     (case py_index union_labels y_lookup of
        Inl e \<Rightarrow> Inl e
      | Inr source_ind \<Rightarrow>
          (case py_index union_labels x_lookup of
             Inl e \<Rightarrow> Inl e
           | Inr target_ind \<Rightarrow>
               pair_cosponsors union_labels y_lookup x_list
                 (chord_list @
                    [\<lparr>c_source = source_ind, c_target = target_ind, c_value = 1\<rparr>])))"

text \<open>The outer loop of lines 86 to 96, over the rows of the frame.\<close>

fun pair_rows ::
  "string list \<Rightarrow> (string, 'b) row list \<Rightarrow> chord list \<Rightarrow> pyerror + chord list" where
  "pair_rows union_labels [] chord_list = Inr chord_list"
| "pair_rows union_labels (r # rs) chord_list =
     (case pair_cosponsors union_labels (Sponsor r) (Cosponsor r) chord_list of
        Inl e \<Rightarrow> Inl e
      | Inr chord_list' \<Rightarrow> pair_rows union_labels rs chord_list')"

text \<open>Lines 60 to 98.\<close>

definition create_vertex_and_chord_lists ::
  "(string list \<Rightarrow> string list) \<Rightarrow> (string, 'b) row list
     \<Rightarrow> pyerror + (vertex list \<times> chord list)" where
  "create_vertex_and_chord_lists py_set d_frame =
     (let li = concat (map Cosponsor d_frame) in
      case py_sorted (py_set (map Sponsor d_frame)) of
        Inl e \<Rightarrow> Inl e
      | Inr y_labels \<Rightarrow>
          (case py_sorted (py_set li) of
             Inl e \<Rightarrow> Inl e
           | Inr x_labels \<Rightarrow>
               (case py_sorted (py_set (x_labels @ y_labels)) of
                  Inl e \<Rightarrow> Inl e
                | Inr union_labels \<Rightarrow>
                    (let vert_list =
                           map (\<lambda>label. \<lparr>v_group = 0, v_name = label\<rparr>) union_labels
                     in case pair_rows union_labels d_frame [] of
                          Inl e \<Rightarrow> Inl e
                        | Inr chord_list \<Rightarrow> Inr (vert_list, chord_list)))))"

subsection \<open>Reference notions for the graph lists\<close>

text \<open>
  The precondition of the sort key: the label is not empty and, if its first character
  is a digit, its text up to the first space parses as an integer.
\<close>

definition label_ok :: "string \<Rightarrow> bool" where
  "label_ok item =
     (item \<noteq> [] \<and> (py_isdigit (hd item) \<longrightarrow> py_int (partition_head item) \<noteq> None))"

text \<open>The key of a label as a total function; it is the source's key wherever that is defined.\<close>

definition key_of :: "string \<Rightarrow> sortkey" where
  "key_of item = (case label_key item of Inr k \<Rightarrow> k | Inl e \<Rightarrow> (PyInf, item))"

text \<open>The label ordering: \<open>a\<close> sorts strictly before \<open>b\<close> when both keys exist and compare so.\<close>

definition label_less :: "string \<Rightarrow> string \<Rightarrow> bool" where
  "label_less a b =
     (case label_key a of
        Inl e \<Rightarrow> False
      | Inr ka \<Rightarrow> (case label_key b of Inl e \<Rightarrow> False | Inr kb \<Rightarrow> ka < kb))"

text \<open>
  The label ordering rule, stated without the sort key. A label has a numeric prefix when
  it begins with a digit and its text up to the first space reads as an integer; that
  integer is its number.
\<close>

definition numeric_prefix :: "string \<Rightarrow> int option" where
  "numeric_prefix item =
     (if item \<noteq> [] \<and> py_isdigit (hd item) then py_int (partition_head item) else None)"

text \<open>
  \<open>a\<close> comes before \<open>b\<close>: two labels with numeric prefixes go by their numbers, and by
  string comparison when the numbers are equal; a label with a numeric prefix comes
  before one without; two labels without go by string comparison.
\<close>

definition label_rule_less :: "string \<Rightarrow> string \<Rightarrow> bool" where
  "label_rule_less a b =
     (case numeric_prefix a of
        Some m \<Rightarrow>
          (case numeric_prefix b of
             Some n \<Rightarrow> m < n \<or> (m = n \<and> a < b)
           | None \<Rightarrow> True)
      | None \<Rightarrow>
          (case numeric_prefix b of
             Some n \<Rightarrow> False
           | None \<Rightarrow> a < b))"

text \<open>Every label of the frame: the sponsor column, then the flattened co-sponsor column.\<close>

definition all_labels :: "(string, 'b) row list \<Rightarrow> string list" where
  "all_labels d_frame = map Sponsor d_frame @ concat (map Cosponsor d_frame)"

text \<open>The (sponsor, co-sponsor) pairs of the frame, in row order, then list order.\<close>

definition sponsor_pairs :: "(string, 'b) row list \<Rightarrow> (string \<times> string) list" where
  "sponsor_pairs d_frame =
     concat (map (\<lambda>r. map (\<lambda>x. (Sponsor r, x)) (Cosponsor r)) d_frame)"

text \<open>The position of the first \<open>x\<close> in \<open>xs\<close> (the length of \<open>xs\<close> if there is none).\<close>

definition index_of :: "string list \<Rightarrow> string \<Rightarrow> int" where
  "index_of xs x = int (length (takeWhile (\<lambda>y. y \<noteq> x) xs))"

definition chord_of :: "string list \<Rightarrow> string \<times> string \<Rightarrow> chord" where
  "chord_of labels p =
     \<lparr>c_source = index_of labels (fst p), c_target = index_of labels (snd p), c_value = 1\<rparr>"

definition vertex_of :: "string \<Rightarrow> vertex" where
  "vertex_of label = \<lparr>v_group = 0, v_name = label\<rparr>"

definition union_labels_of :: "(string, 'b) row list \<Rightarrow> string list" where
  "union_labels_of d_frame = sort_key key_of (remdups (all_labels d_frame))"

subsection \<open>JSON records and the table builder\<close>

text \<open>
  The value \<open>json.loads\<close> returns. An object is a \<open>dict\<close>, written as the list of its
  items, found by key with \<open>map_of\<close>; the keys of a \<open>dict\<close> are distinct. The script
  never looks inside a number, which is an integer here.
\<close>

datatype json =
    JNull
  | JBool bool
  | JNum int
  | JStr string
  | JArr "json list"
  | JObj "(string \<times> json) list"

text \<open>
  \<open>v[k]\<close> for a string \<open>k\<close>: a missing key of a dict is a \<open>KeyError\<close>; a list or a string
  takes integer indices only and the other values take no subscript, a \<open>TypeError\<close>.
\<close>

fun getitem_key :: "json \<Rightarrow> string \<Rightarrow> pyerror + json" where
  "getitem_key (JObj kvs) k = (case map_of kvs k of None \<Rightarrow> Inl KeyError | Some v \<Rightarrow> Inr v)"
| "getitem_key v k = Inl TypeError"

text \<open>\<open>len(v)\<close>.\<close>

fun py_len :: "json \<Rightarrow> pyerror + nat" where
  "py_len (JArr xs) = Inr (length xs)"
| "py_len (JStr s) = Inr (length s)"
| "py_len (JObj kvs) = Inr (length (remdups (map fst kvs)))"
| "py_len v = Inl TypeError"

text \<open>
  \<open>v[i]\<close> for an integer \<open>i\<close> from \<open>range(len(v))\<close>. The keys of a JSON object are
  strings, so an integer is never a key of the dict.
\<close>

fun getitem_index :: "json \<Rightarrow> nat \<Rightarrow> pyerror + json" where
  "getitem_index (JArr xs) i = (if i < length xs then Inr (xs ! i) else Inl IndexError)"
| "getitem_index (JStr s) i = (if i < length s then Inr (JStr [s ! i]) else Inl IndexError)"
| "getitem_index (JObj kvs) i = Inl KeyError"
| "getitem_index v i = Inl TypeError"

text \<open>\<open>r["cosponsors"][i]["name"]\<close>.\<close>

definition cosponsor_name :: "json \<Rightarrow> nat \<Rightarrow> pyerror + json" where
  "cosponsor_name r i =
     (case getitem_key r ''cosponsors'' of
        Inl e \<Rightarrow> Inl e
      | Inr cs \<Rightarrow>
          (case getitem_index cs i of Inl e \<Rightarrow> Inl e | Inr c \<Rightarrow> getitem_key c ''name''))"

text \<open>\<open>[r["cosponsors"][i]["name"] for i in range(len(r["cosponsors"]))]\<close>.\<close>

definition cosponsor_names :: "json \<Rightarrow> pyerror + json list" where
  "cosponsor_names r =
     (case getitem_key r ''cosponsors'' of
        Inl e \<Rightarrow> Inl e
      | Inr cs \<Rightarrow>
          (case py_len cs of
             Inl e \<Rightarrow> Inl e
           | Inr n \<Rightarrow> map_raise (cosponsor_name r) [0..<n]))"

text \<open>The tuple of lines 54 and 55, its three parts evaluated from left to right.\<close>

definition record_tuple :: "json \<Rightarrow> pyerror + (json, json) row" where
  "record_tuple r =
     (case getitem_key r ''sponsor'' of
        Inl e \<Rightarrow> Inl e
      | Inr s \<Rightarrow>
          (case getitem_key s ''name'' of
             Inl e \<Rightarrow> Inl e
           | Inr sponsor_name \<Rightarrow>
               (case cosponsor_names r of
                  Inl e \<Rightarrow> Inl e
                | Inr names \<Rightarrow>
                    (case getitem_key r ''bill_id'' of
                       Inl e \<Rightarrow> Inl e
                     | Inr bill_id \<Rightarrow>
                         Inr \<lparr>Sponsor = sponsor_name, Cosponsor = names, Bill = bill_id\<rparr>))))"

text \<open>
  Lines 48 to 57: \<open>DataFrame.from_records\<close> draws the tuples from the generator one
  after the other; an exception raised by the generator leaves no frame.
\<close>

definition filter_json_to_frame :: "json list \<Rightarrow> pyerror + (json, json) row list" where
  "filter_json_to_frame rows = map_raise record_tuple rows"

subsection \<open>The fetcher\<close>

text \<open>
  The network is a parameter: \<open>http_get_json url\<close> is the outcome of
  \<open>json.loads(requests.get(url).text)\<close>. The list of the URLs requested so far is
  threaded through as state. \<open>vote_url\<close> is the URL that line 38 formats for a link.
\<close>

definition vote_url :: "string \<Rightarrow> string" where
  "vote_url vote_href =
     ''http://www.govtrack.us/data/congress/113/bills/s/'' @ vote_href @ ''data.json''"

definition get_single_vote ::
  "(string \<Rightarrow> pyerror + json) \<Rightarrow> string \<Rightarrow> string list \<Rightarrow> string list \<times> (pyerror + json)" where
  "get_single_vote http_get_json vote_href requested =
     (let url = vote_url vote_href in (requested @ [url], http_get_json url))"

text \<open>The loop of lines 23 to 26 over the \<open>href\<close> values of the anchors, in page order.\<close>

fun collect_links :: "string list \<Rightarrow> string list \<Rightarrow> string list" where
  "collect_links [] links = links"
| "collect_links (x # tags) links =
     (if prefix ''s'' x then collect_links tags (links @ [x]) else collect_links tags links)"

text \<open>The comprehension of line 30.\<close>

fun get_votes ::
  "(string \<Rightarrow> pyerror + json) \<Rightarrow> string list \<Rightarrow> string list
     \<Rightarrow> string list \<times> (pyerror + json list)" where
  "get_votes http_get_json [] requested = (requested, Inr [])"
| "get_votes http_get_json (link # links) requested =
     (case get_single_vote http_get_json link requested of
        (requested', Inl e) \<Rightarrow> (requested', Inl e)
      | (requested', Inr vote) \<Rightarrow>
          (case get_votes http_get_json links requested' of
             (requested'', Inl e) \<Rightarrow> (requested'', Inl e)
           | (requested'', Inr votes) \<Rightarrow> (requested'', Inr (vote # votes))))"

text \<open>Lines 10 to 32, \<open>hrefs\<close> the \<open>href\<close> values of the anchors of the index page.\<close>

definition get_links ::
  "(string \<Rightarrow> pyerror + json) \<Rightarrow> string list \<Rightarrow> string list \<times> (pyerror + json list)" where
  "get_links http_get_json hrefs =
     (let links = collect_links hrefs [] in get_votes http_get_json (take 10 links) [])"

subsection \<open>Reference notions for the table builder\<close>

text \<open>The field \<open>k\<close> of a JSON value: the value stored under the key \<open>k\<close> of an object.\<close>

fun field :: "json \<Rightarrow> string \<Rightarrow> json option" where
  "field (JObj kvs) k = map_of kvs k"
| "field v k = None"

text \<open>
  The elements \<open>v[0]\<close>, ..., \<open>v[len(v) - 1]\<close> of a value \<open>v\<close>, if \<open>v\<close> has a length and
  these subscripts: the elements of an array, the characters of a string, nothing for an
  empty object.
\<close>

fun elements :: "json \<Rightarrow> json list option" where
  "elements (JArr xs) = Some xs"
| "elements (JStr s) = Some (map (\<lambda>c. JStr [c]) s)"
| "elements (JObj kvs) = (if kvs = [] then Some [] else None)"
| "elements v = None"

text \<open>
  The expected fields of a record: \<open>sponsor.name\<close>, \<open>cosponsors[i].name\<close> for every
  \<open>i\<close>, and \<open>bill_id\<close>.
\<close>

definition has_fields :: "json \<Rightarrow> bool" where
  "has_fields r =
     ((case field r ''sponsor'' of None \<Rightarrow> False | Some s \<Rightarrow> field s ''name'' \<noteq> None)
      \<and> (case field r ''cosponsors'' of
            None \<Rightarrow> False
          | Some cs \<Rightarrow>
              (case elements cs of
                 None \<Rightarrow> False
               | Some xs \<Rightarrow> list_all (\<lambda>c. field c ''name'' \<noteq> None) xs))
      \<and> field r ''bill_id'' \<noteq> None)"

text \<open>
  The row of a record: its sponsor name, the list of its co-sponsor names, its bill
  identifier; \<open>None\<close> if a field is missing.
\<close>

definition expected_row :: "json \<Rightarrow> (json, json) row option" where
  "expected_row r =
     (case field r ''sponsor'' of
        None \<Rightarrow> None
      | Some s \<Rightarrow>
          (case field s ''name'' of
             None \<Rightarrow> None
           | Some sponsor_name \<Rightarrow>
               (case field r ''cosponsors'' of
                  None \<Rightarrow> None
                | Some cs \<Rightarrow>
                    (case elements cs of
                       None \<Rightarrow> None
                     | Some xs \<Rightarrow>
                         (case those (map (\<lambda>c. field c ''name'') xs) of
                            None \<Rightarrow> None
                          | Some names \<Rightarrow>
                              (case field r ''bill_id'' of
                                 None \<Rightarrow> None
                               | Some bill_id \<Rightarrow>
                                   Some \<lparr>Sponsor = sponsor_name, Cosponsor = names,
                                         Bill = bill_id\<rparr>))))))"

text \<open>The exceptions of a failed field access.\<close>

definition schema_error :: "pyerror \<Rightarrow> bool" where
  "schema_error e = (e = KeyError \<or> e = TypeError)"

subsection \<open>Example inputs\<close>

text \<open>The two records of the end-to-end scenario, with bill identifiers \<open>b1\<close> and \<open>b2\<close>.\<close>

definition scenario_frame :: "'b \<Rightarrow> 'b \<Rightarrow> (string, 'b) row list" where
  "scenario_frame b1 b2 =
     [\<lparr>Sponsor = ''1 Alpha'', Cosponsor = [''2 Beta''], Bill = b1\<rparr>,
      \<lparr>Sponsor = ''2 Beta'', Cosponsor = [''1 Alpha'', ''3 Gamma''], Bill = b2\<rparr>]"

definition scenario_vertices :: "vertex list" where
  "scenario_vertices =
     [\<lparr>v_group = 0, v_name = ''1 Alpha''\<rparr>,
      \<lparr>v_group = 0, v_name = ''2 Beta''\<rparr>,
      \<lparr>v_group = 0, v_name = ''3 Gamma''\<rparr>]"

definition scenario_chords :: "chord list" where
  "scenario_chords =
     [\<lparr>c_source = 0, c_target = 1, c_value = 1\<rparr>,
      \<lparr>c_source = 1, c_target = 0, c_value = 1\<rparr>,
      \<lparr>c_source = 1, c_target = 2, c_value = 1\<rparr>]"

text \<open>A record whose sponsor is among its own co-sponsors.\<close>

definition self_loop_frame :: "(string, string) row list" where
  "self_loop_frame =
     [\<lparr>Sponsor = ''Abel'', Cosponsor = [''7 Jones'', ''Abel''], Bill = ''s9''\<rparr>]"

text \<open>Two records with labels on which the sort key raises.\<close>

definition raising_frame :: "(string, string) row list" where
  "raising_frame =
     [\<lparr>Sponsor = [], Cosponsor = [], Bill = ''s1''\<rparr>,
      \<lparr>Sponsor = ''3rd Reading'', Cosponsor = [], Bill = ''s2''\<rparr>]"

text \<open>A record whose labels sort differently by number and by string comparison.\<close>

definition ordering_frame :: "(string, string) row list" where
  "ordering_frame =
     [\<lparr>Sponsor = ''10 Jones'', Cosponsor = [''Abel'', ''3 Smith''], Bill = ''s3''\<rparr>]"

definition ordering_vertices :: "vertex list" where
  "ordering_vertices =
     [\<lparr>v_group = 0, v_name = ''3 Smith''\<rparr>,
      \<lparr>v_group = 0, v_name = ''10 Jones''\<rparr>,
      \<lparr>v_group = 0, v_name = ''Abel''\<rparr>]"

definition ordering_chords :: "chord list" where
  "ordering_chords =
     [\<lparr>c_source = 1, c_target = 2, c_value = 1\<rparr>,
      \<lparr>c_source = 1, c_target = 0, c_value = 1\<rparr>]"

text \<open>
  The label \<open>7\<close>, unit separator (code point 31), space, \<open>A\<close>, and the same with a
  no-break space (code point 160) in place of the separator.
\<close>

definition separator_label :: string where
  "separator_label = [CHR ''7'', CHR 0x1F, CHR '' '', CHR ''A'']"

definition nbsp_label :: string where
  "nbsp_label = [CHR ''7'', CHR 0xA0, CHR '' '', CHR ''A'']"

text \<open>Two JSON records of the documented shape, and the second without its \<open>bill_id\<close>.\<close>

definition record_s1 :: json where
  "record_s1 =
     JObj [(''sponsor'', JObj [(''name'', JStr ''1 Alpha'')]),
           (''cosponsors'', JArr [JObj [(''name'', JStr ''2 Beta'')]]),
           (''bill_id'', JStr ''s1'')]"

definition record_s2 :: json where
  "record_s2 =
     JObj [(''sponsor'', JObj [(''name'', JStr ''2 Beta'')]),
           (''cosponsors'',
              JArr [JObj [(''name'', JStr ''1 Alpha'')], JObj [(''name'', JStr ''3 Gamma'')]]),
           (''bill_id'', JStr ''s2'')]"

definition record_no_bill :: json where
  "record_no_bill =
     JObj [(''sponsor'', JObj [(''name'', JStr ''2 Beta'')]),
           (''cosponsors'',
              JArr [JObj [(''name'', JStr ''1 Alpha'')], JObj [(''name'', JStr ''3 Gamma'')]])]"

text \<open>An index page with twelve record links among other anchors, and a network that answers.\<close>

definition index_hrefs :: "string list" where
  "index_hrefs =
     [''../'', ''s1/'', ''s2/'', ''s3/'', ''hr1/'', ''s4/'', ''s5/'', ''s6/'', ''s7/'',
      ''s8/'', ''s9/'', ''s10/'', ''?C=N'', ''s11/'', ''s12/'']"

definition echo_network :: "string \<Rightarrow> pyerror + json" where
  "echo_network url = Inr (JStr url)"

section \<open>Auxiliary facts\<close>

subsection \<open>Loops that may raise\<close>

lemma map_raise_Inr_iff:
  "map_raise f xs = Inr ys \<longleftrightarrow> list_all2 (\<lambda>x y. f x = Inr y) xs ys"
proof (induction xs arbitrary: ys)
  case Nil
  show ?case by auto
next
  case (Cons x xs)
  show ?case
  proof (cases "f x")
    case (Inl e)
    then show ?thesis by (cases ys) auto
  next
    case (Inr y)
    show ?thesis
    proof (cases "map_raise f xs")
      case (Inl e)
      with Inr Cons.IH show ?thesis by (cases ys) auto
    next
      case r: (Inr zs)
      with Inr Cons.IH [of zs] Cons.IH show ?thesis by (cases ys) auto
    qed
  qed
qed

lemma map_raise_Inl:
  "map_raise f xs = Inl e \<Longrightarrow> \<exists>x\<in>set xs. f x = Inl e"
  by (induction xs) (auto split: sum.splits)

lemma map_raise_total:
  "(\<forall>x\<in>set xs. f x = Inr (g x)) \<Longrightarrow> map_raise f xs = Inr (map g xs)"
  by (induction xs) auto

lemma map_raise_fails:
  "x \<in> set xs \<Longrightarrow> f x = Inl e \<Longrightarrow> \<exists>e'. map_raise f xs = Inl e'"
  by (induction xs) (auto split: sum.splits)

lemma label_key_Inr_iff: "label_key l = Inr k \<longleftrightarrow> label_ok l \<and> k = key_of l"
  by (cases l) (auto simp: label_key_def label_ok_def key_of_def split: option.splits)

lemma label_key_ok: "label_ok l \<Longrightarrow> label_key l = Inr (key_of l)"
  by (simp add: label_key_Inr_iff)

lemma label_key_Inl: "label_key l = Inl e \<Longrightarrow> \<not> label_ok l \<and> (e = IndexError \<or> e = ValueError_int)"
  by (cases l) (auto simp: label_key_def label_ok_def split: option.splits if_splits)

lemma label_key_not_ok: "\<not> label_ok l \<Longrightarrow> \<exists>e. label_key l = Inl e"
  by (cases "label_key l") (auto simp: label_key_Inr_iff)

lemma snd_key_of [simp]: "snd (key_of l) = l"
  by (cases l) (auto simp: key_of_def label_key_def split: option.splits)

lemma inj_key_of: "inj_on key_of A"
  by (rule inj_on_inverseI [where g = snd]) simp

lemma sort_key_decorated:
  "map snd (sort_key fst (map (\<lambda>x. (f x, x)) xs)) = sort_key f xs"
proof -
  have ins: "insort_key fst (f x, x) (map (\<lambda>x. (f x, x)) ys) = map (\<lambda>x. (f x, x)) (insort_key f x ys)" for x ys
    by (induction ys) auto
  have "sort_key fst (map (\<lambda>x. (f x, x)) xs) = map (\<lambda>x. (f x, x)) (sort_key f xs)"
    by (induction xs) (auto simp: ins)
  then show ?thesis by (simp add: comp_def)
qed

lemma py_sorted_ok:
  assumes "\<forall>x\<in>set xs. label_ok x"
  shows "py_sorted xs = Inr (sort_key key_of xs)"
proof -
  have "map_raise label_key xs = Inr (map key_of xs)"
    using assms by (intro map_raise_total) (simp add: label_key_ok)
  moreover have "zip (map key_of xs) xs = map (\<lambda>x. (key_of x, x)) xs"
    by (induction xs) auto
  ultimately show ?thesis
    by (simp add: py_sorted_def sort_key_decorated)
qed

lemma py_sorted_Inl:
  assumes "py_sorted xs = Inl e"
  shows "(e = IndexError \<or> e = ValueError_int) \<and> (\<exists>x\<in>set xs. \<not> label_ok x)"
proof -
  from assms have "map_raise label_key xs = Inl e"
    by (auto simp: py_sorted_def split: sum.splits)
  from map_raise_Inl [of label_key xs e, OF this]
  obtain x where "x \<in> set xs" "label_key x = Inl e" ..
  then show ?thesis using label_key_Inl by blast
qed

lemma py_sorted_not_ok:
  assumes "x \<in> set xs" "\<not> label_ok x"
  shows "\<exists>e. py_sorted xs = Inl e"
proof -
  obtain e where "label_key x = Inl e" using label_key_not_ok assms(2) by blast
  from map_raise_fails [of x xs label_key e, OF assms(1) this]
  obtain e' where "map_raise label_key xs = Inl e'" ..
  then show ?thesis by (simp add: py_sorted_def)
qed

lemma py_sorted_Inr_iff:
  "py_sorted xs = Inr ys \<longleftrightarrow> (\<forall>x\<in>set xs. label_ok x) \<and> ys = sort_key key_of xs"
proof (cases "\<forall>x\<in>set xs. label_ok x")
  case True
  then show ?thesis by (auto simp: py_sorted_ok)
next
  case False
  then obtain e where "py_sorted xs = Inl e" using py_sorted_not_ok by blast
  with False show ?thesis by simp
qed

lemma sort_key_of_unique:
  assumes "distinct xs" "distinct ys" "set xs = set ys"
  shows "sort_key key_of xs = sort_key key_of ys"
proof -
  let ?a = "sort_key key_of xs" and ?b = "sort_key key_of ys"
  have s: "sorted (map key_of ?a)" "sorted (map key_of ?b)" by simp_all
  have d: "distinct (map key_of ?a)" "distinct (map key_of ?b)"
    using assms by (simp_all add: distinct_map inj_key_of)
  have e: "set (map key_of ?a) = set (map key_of ?b)"
    using assms by simp
  have "map key_of ?a = map key_of ?b"
    by (rule sorted_distinct_set_unique [OF s(1) d(1) s(2) d(2) e])
  then have "map snd (map key_of ?a) = map snd (map key_of ?b)" by simp
  then show ?thesis by (simp add: comp_def)
qed

lemma set_order_remdups: "set_order remdups"
  by (simp add: set_order_def)

lemma set_order_rev_remdups: "set_order (\<lambda>xs. rev (remdups xs))"
  by (simp add: set_order_def)

lemma set_all_labels:
  "set (all_labels d) = Sponsor ` set d \<union> (\<Union>r\<in>set d. set (Cosponsor r))"
  by (auto simp: all_labels_def)

subsection \<open>The index lookup and the chord loops\<close>

lemma py_index_mem: "x \<in> set xs \<Longrightarrow> py_index xs x = Inr (index_of xs x)"
  by (induction xs) (auto simp: index_of_def)

lemma py_index_not_mem: "x \<notin> set xs \<Longrightarrow> py_index xs x = Inl ValueError_index"
  by (induction xs) auto

lemma index_of_bounds:
  "x \<in> set xs \<Longrightarrow> 0 \<le> index_of xs x \<and> index_of xs x < int (length xs)"
  by (induction xs) (auto simp: index_of_def)

lemma index_of_nth: "x \<in> set xs \<Longrightarrow> xs ! nat (index_of xs x) = x"
  by (induction xs) (auto simp: index_of_def)

lemma pair_cosponsors_ok:
  "y \<in> set ul \<Longrightarrow> set xs \<subseteq> set ul \<Longrightarrow>
   pair_cosponsors ul y xs acc = Inr (acc @ map (\<lambda>x. chord_of ul (y, x)) xs)"
  by (induction xs arbitrary: acc) (auto simp: py_index_mem chord_of_def)

lemma sponsor_pairs_Cons:
  "sponsor_pairs (r # rs) = map (\<lambda>x. (Sponsor r, x)) (Cosponsor r) @ sponsor_pairs rs"
  by (simp add: sponsor_pairs_def)

lemma pair_rows_ok:
  "set (all_labels rs) \<subseteq> set ul \<Longrightarrow>
   pair_rows ul rs acc = Inr (acc @ map (chord_of ul) (sponsor_pairs rs))"
proof (induction rs arbitrary: acc)
  case Nil
  show ?case by (simp add: sponsor_pairs_def)
next
  case (Cons r rs)
  from Cons.prems have y: "Sponsor r \<in> set ul" and xs: "set (Cosponsor r) \<subseteq> set ul"
    and rest: "set (all_labels rs) \<subseteq> set ul"
    by (auto simp: all_labels_def)
  show ?case
    by (simp add: pair_cosponsors_ok [OF y xs] Cons.IH [OF rest] sponsor_pairs_Cons comp_def)
qed

lemma set_union_labels_of [simp]: "set (union_labels_of d) = set (all_labels d)"
  by (simp add: union_labels_of_def)

lemma distinct_union_labels_of [simp]: "distinct (union_labels_of d)"
  by (simp add: union_labels_of_def)

lemma create_ok:
  assumes so: "set_order py_set" and ok: "\<forall>l\<in>set (all_labels d_frame). label_ok l"
  shows "create_vertex_and_chord_lists py_set d_frame =
           Inr (map vertex_of (union_labels_of d_frame),
                map (chord_of (union_labels_of d_frame)) (sponsor_pairs d_frame))"
proof -
  let ?sp = "map Sponsor d_frame" and ?li = "concat (map Cosponsor d_frame)"
  let ?y = "sort_key key_of (py_set ?sp)" and ?x = "sort_key key_of (py_set ?li)"
  from so have ps: "distinct (py_set xs)" "set (py_set xs) = set xs" for xs
    by (simp_all add: set_order_def)
  have y: "py_sorted (py_set ?sp) = Inr ?y"
    using ok by (intro py_sorted_ok) (auto simp: ps all_labels_def)
  have x: "py_sorted (py_set ?li) = Inr ?x"
    using ok by (intro py_sorted_ok) (auto simp: ps all_labels_def)
  have "set (py_set (?x @ ?y)) = set (all_labels d_frame)"
    by (auto simp: ps all_labels_def)
  then have u: "sort_key key_of (py_set (?x @ ?y)) = union_labels_of d_frame"
    unfolding union_labels_of_def
    by (intro sort_key_of_unique) (simp_all add: ps)
  have "py_sorted (py_set (?x @ ?y)) = Inr (sort_key key_of (py_set (?x @ ?y)))"
    using ok by (intro py_sorted_ok) (auto simp: ps all_labels_def)
  then have un: "py_sorted (py_set (?x @ ?y)) = Inr (union_labels_of d_frame)"
    by (simp only: u)
  have pr: "pair_rows (union_labels_of d_frame) d_frame [] =
          Inr (map (chord_of (union_labels_of d_frame)) (sponsor_pairs d_frame))"
    by (simp add: pair_rows_ok)
  show ?thesis
    unfolding create_vertex_and_chord_lists_def Let_def
    by (simp only: y x un pr sum.case) (simp add: vertex_of_def)
qed

lemma create_not_ok:
  assumes so: "set_order py_set" and bad: "l \<in> set (all_labels d_frame)" "\<not> label_ok l"
  shows "\<exists>e. create_vertex_and_chord_lists py_set d_frame = Inl e
            \<and> (e = IndexError \<or> e = ValueError_int)"
proof -
  let ?sp = "map Sponsor d_frame" and ?li = "concat (map Cosponsor d_frame)"
  from so have ps: "set (py_set xs) = set xs" for xs
    by (simp add: set_order_def)
  show ?thesis
  proof (cases "py_sorted (py_set ?sp)")
    case (Inl e)
    then show ?thesis
      using py_sorted_Inl [OF Inl]
      by (simp add: create_vertex_and_chord_lists_def)
  next
    case (Inr y_labels)
    then have "\<forall>x\<in>set ?sp. label_ok x"
      by (simp add: py_sorted_Inr_iff ps)
    with bad have "l \<in> set (py_set ?li)"
      by (auto simp: all_labels_def ps)
    from py_sorted_not_ok [OF this bad(2)] obtain e where e: "py_sorted (py_set ?li) = Inl e" ..
    show ?thesis
      using py_sorted_Inl [OF e] e Inr
      by (simp add: create_vertex_and_chord_lists_def)
  qed
qed

lemma create_Inr_iff:
  assumes "set_order py_set"
  shows "create_vertex_and_chord_lists py_set d_frame = Inr r \<longleftrightarrow>
           (\<forall>l\<in>set (all_labels d_frame). label_ok l) \<and>
           r = (map vertex_of (union_labels_of d_frame),
                map (chord_of (union_labels_of d_frame)) (sponsor_pairs d_frame))"
proof (cases "\<forall>l\<in>set (all_labels d_frame). label_ok l")
  case True
  then show ?thesis by (auto simp: create_ok [OF assms True])
next
  case False
  then obtain l where "l \<in> set (all_labels d_frame)" "\<not> label_ok l" by blast
  from create_not_ok [OF assms this] False show ?thesis by auto
qed

subsection \<open>The key order and the ordering rule\<close>

lemma pynum_less_simps [simp]:
  "PyInt m < PyInt n \<longleftrightarrow> m < n"
  "PyInt m < PyInf"
  "\<not> PyInf < x"
  "PyInt m \<le> PyInt n \<longleftrightarrow> m \<le> n"
  "x \<le> PyInf"
  "\<not> PyInf \<le> PyInt n"
  by (auto simp: less_pynum_def less_eq_pynum_def split: pynum.splits)

lemma key_of_digit:
  "label_ok a \<Longrightarrow> py_isdigit (hd a) \<Longrightarrow>
   \<exists>m. py_int (partition_head a) = Some m \<and> key_of a = (PyInt m, a)"
  by (cases a) (auto simp: key_of_def label_key_def label_ok_def)

lemma key_of_other:
  "label_ok a \<Longrightarrow> \<not> py_isdigit (hd a) \<Longrightarrow> key_of a = (PyInf, a)"
  by (cases a) (auto simp: key_of_def label_key_def label_ok_def)

lemma label_less_ok:
  "label_ok a \<Longrightarrow> label_ok b \<Longrightarrow> label_less a b \<longleftrightarrow> key_of a < key_of b"
  by (simp add: label_less_def label_key_ok)

lemma key_of_numeric_prefix:
  assumes "label_ok a"
  shows "key_of a = (case numeric_prefix a of Some m \<Rightarrow> PyInt m | None \<Rightarrow> PyInf, a)"
proof (cases "py_isdigit (hd a)")
  case True
  from key_of_digit [OF assms True] obtain m
    where "py_int (partition_head a) = Some m" "key_of a = (PyInt m, a)" by blast
  with True assms show ?thesis by (simp add: numeric_prefix_def label_ok_def)
next
  case False
  with key_of_other [OF assms False] show ?thesis by (simp add: numeric_prefix_def)
qed

lemma label_less_rule:
  assumes "label_ok a" and "label_ok b"
  shows "label_less a b \<longleftrightarrow> label_rule_less a b"
  by (auto simp: label_less_ok [OF assms] key_of_numeric_prefix [OF assms(1)]
        key_of_numeric_prefix [OF assms(2)] label_rule_less_def split: option.splits)

section \<open>The graph list builder\<close>

subsection \<open>The vertex list\<close>

lemma sorted_wrt_label_less_sort:
  assumes "\<forall>x\<in>set xs. label_ok x" "distinct xs"
  shows "sorted_wrt label_less (sort_key key_of xs)"
proof -
  let ?s = "sort_key key_of xs"
  have "sorted (map key_of ?s)" by simp
  moreover have "distinct (map key_of ?s)"
    using assms(2) by (simp add: distinct_map inj_key_of)
  ultimately have "sorted_wrt (<) (map key_of ?s)"
    by (simp add: strict_sorted_iff)
  then have "sorted_wrt (\<lambda>a b. key_of a < key_of b) ?s"
    by (simp add: sorted_wrt_map)
  then show ?thesis
    using assms(1) by (elim sorted_wrt_mono_rel [rotated]) (simp add: label_less_ok)
qed

lemma sorted_union_labels_of:
  "\<forall>l\<in>set (all_labels d). label_ok l \<Longrightarrow> sorted_wrt label_less (union_labels_of d)"
  unfolding union_labels_of_def by (rule sorted_wrt_label_less_sort) simp_all

lemma v_name_vertex_of [simp]: "map v_name (map vertex_of ls) = ls"
  by (induction ls) (simp_all add: vertex_of_def)

lemma v_group_vertex_of: "v \<in> set (map vertex_of ls) \<Longrightarrow> v_group v = 0"
  by (auto simp: vertex_of_def)

lemma scenario_run:
  "create_vertex_and_chord_lists remdups (scenario_frame ''s1'' ''s2'')
     = Inr (scenario_vertices, scenario_chords)"
  by code_simp

lemma scenario_labels_ok: "\<forall>l\<in>set (all_labels (scenario_frame b1 b2)). label_ok l"
proof -
  have "\<forall>l\<in>set [''1 Alpha'', ''2 Beta'', ''3 Gamma'']. label_ok l" by code_simp
  then show ?thesis by (simp add: all_labels_def scenario_frame_def)
qed

lemma sorted_rule_union_labels_of:
  assumes "\<forall>l\<in>set (all_labels d). label_ok l"
  shows "sorted_wrt label_rule_less (union_labels_of d)"
proof -
  have "\<forall>l\<in>set (union_labels_of d). label_ok l"
    using assms by simp
  with sorted_union_labels_of [OF assms] show ?thesis
    by (elim sorted_wrt_mono_rel [rotated]) (simp add: label_less_rule)
qed

lemma ordering_run:
  "create_vertex_and_chord_lists remdups ordering_frame
     = Inr (ordering_vertices, ordering_chords)"
  by code_simp



subsection \<open>The chord list\<close>

lemma length_sponsor_pairs:
  "length (sponsor_pairs d) = (\<Sum>r\<leftarrow>d. length (Cosponsor r))"
  by (induction d) (simp_all add: sponsor_pairs_def)

lemma set_sponsor_pairs:
  "p \<in> set (sponsor_pairs d) \<Longrightarrow> fst p \<in> set (all_labels d) \<and> snd p \<in> set (all_labels d)"
  by (auto simp: sponsor_pairs_def all_labels_def)

lemma chord_of_names:
  assumes "fst p \<in> set ls" "snd p \<in> set ls"
  shows "(ls ! nat (c_source (chord_of ls p)), ls ! nat (c_target (chord_of ls p)),
          c_value (chord_of ls p)) = (fst p, snd p, 1)"
  using assms by (simp add: chord_of_def index_of_nth)

lemma chord_of_bounds:
  assumes "fst p \<in> set ls" "snd p \<in> set ls"
  shows "0 \<le> c_source (chord_of ls p) \<and> c_source (chord_of ls p) < int (length ls)
       \<and> 0 \<le> c_target (chord_of ls p) \<and> c_target (chord_of ls p) < int (length ls)"
  using assms by (simp add: chord_of_def index_of_bounds)

lemma create_Inr_parts:
  assumes "set_order py_set"
    and "create_vertex_and_chord_lists py_set d_frame = Inr (vs, es)"
  shows "map v_name vs = union_labels_of d_frame"
    and "es = map (chord_of (union_labels_of d_frame)) (sponsor_pairs d_frame)"
    and "length vs = length (union_labels_of d_frame)"
  using assms(2) by (simp_all add: create_Inr_iff [OF assms(1)] comp_def vertex_of_def)

text \<open>
  Claim C2. Whenever \<open>create_vertex_and_chord_lists\<close> returns, its chord list holds one
  chord per (sponsor, co-sponsor) pair of the frame, in row order and then co-sponsor
  order, repeated pairs kept: the chord of a pair has the positions of the two labels in
  the vertex list as source and target and value 1, so reading the names back gives the
  pairs again, and the number of chords is the number of pairs.
\<close>

theorem chord_list_is_pair_list:
  assumes "set_order py_set"
    and "create_vertex_and_chord_lists py_set d_frame = Inr (vs, es)"
  shows "es = map (chord_of (map v_name vs)) (sponsor_pairs d_frame)
       \<and> map (\<lambda>e. (map v_name vs ! nat (c_source e), map v_name vs ! nat (c_target e), c_value e)) es
           = map (\<lambda>p. (fst p, snd p, 1)) (sponsor_pairs d_frame)
       \<and> int (length es) = (\<Sum>r\<leftarrow>d_frame. int (length (Cosponsor r)))"
proof -
  note parts = create_Inr_parts [OF assms]
  let ?ls = "union_labels_of d_frame"
  have a: "es = map (chord_of (map v_name vs)) (sponsor_pairs d_frame)"
    by (simp only: parts(1) parts(2))
  have "(?ls ! nat (c_source (chord_of ?ls p)), ?ls ! nat (c_target (chord_of ?ls p)),
          c_value (chord_of ?ls p)) = (fst p, snd p, 1)"
    if "p \<in> set (sponsor_pairs d_frame)" for p
    using set_sponsor_pairs [OF that] by (intro chord_of_names) simp_all
  then have b: "map (\<lambda>e. (map v_name vs ! nat (c_source e), map v_name vs ! nat (c_target e), c_value e)) es
           = map (\<lambda>p. (fst p, snd p, 1)) (sponsor_pairs d_frame)"
    by (simp add: parts(1) parts(2))
  have "length es = (\<Sum>r\<leftarrow>d_frame. length (Cosponsor r))"
    by (simp add: parts(2) length_sponsor_pairs)
  then have c: "int (length es) = (\<Sum>r\<leftarrow>d_frame. int (length (Cosponsor r)))"
    by (simp add: comp_def flip: sum_list_of_nat)
  from a b c show ?thesis by blast
qed

theorem chord_list_is_pair_list_witness:
  "set_order remdups
   \<and> create_vertex_and_chord_lists remdups (scenario_frame ''s1'' ''s2'')
       = Inr (scenario_vertices, scenario_chords)
   \<and> map (\<lambda>e. (map v_name scenario_vertices ! nat (c_source e),
                map v_name scenario_vertices ! nat (c_target e), c_value e)) scenario_chords
       = [(''1 Alpha'', ''2 Beta'', 1), (''2 Beta'', ''1 Alpha'', 1), (''2 Beta'', ''3 Gamma'', 1)]
   \<and> int (length scenario_chords) = 3"
proof -
  have p: "sponsor_pairs (scenario_frame ''s1'' ''s2'')
             = [(''1 Alpha'', ''2 Beta''), (''2 Beta'', ''1 Alpha''), (''2 Beta'', ''3 Gamma'')]"
    by (simp add: sponsor_pairs_def scenario_frame_def)
  have s: "(\<Sum>r\<leftarrow>scenario_frame ''s1'' ''s2''. int (length (Cosponsor r))) = 3"
    by (simp add: scenario_frame_def)
  from chord_list_is_pair_list [OF set_order_remdups scenario_run]
  show ?thesis
    using set_order_remdups scenario_run by (simp add: p s)
qed

text \<open>
  Claim C3. \<open>create_vertex_and_chord_lists\<close> never ends in the \<open>ValueError\<close> of
  \<open>list.index\<close>, and whenever it returns, the source and the target of every chord are
  at least 0 and less than the length of the vertex list.
\<close>

theorem chord_indices_in_range:
  assumes "set_order py_set"
  shows "create_vertex_and_chord_lists py_set d_frame \<noteq> Inl ValueError_index
       \<and> (\<forall>vs es. create_vertex_and_chord_lists py_set d_frame = Inr (vs, es) \<longrightarrow>
            (\<forall>e\<in>set es. 0 \<le> c_source e \<and> c_source e < int (length vs)
                       \<and> 0 \<le> c_target e \<and> c_target e < int (length vs)))"
proof (intro conjI allI impI ballI)
  show "create_vertex_and_chord_lists py_set d_frame \<noteq> Inl ValueError_index"
  proof (cases "\<forall>l\<in>set (all_labels d_frame). label_ok l")
    case True
    then show ?thesis by (simp add: create_ok [OF assms])
  next
    case False
    then obtain l where "l \<in> set (all_labels d_frame)" "\<not> label_ok l" by blast
    from create_not_ok [OF assms this] show ?thesis by auto
  qed
next
  fix vs es e
  assume run: "create_vertex_and_chord_lists py_set d_frame = Inr (vs, es)"
    and e: "e \<in> set es"
  note parts = create_Inr_parts [OF assms run]
  from e obtain p where p: "p \<in> set (sponsor_pairs d_frame)"
    and ep: "e = chord_of (union_labels_of d_frame) p"
    by (auto simp: parts(2))
  from set_sponsor_pairs [OF p]
  have "fst p \<in> set (union_labels_of d_frame)" "snd p \<in> set (union_labels_of d_frame)"
    by simp_all
  from chord_of_bounds [OF this]
  show "0 \<le> c_source e" "c_source e < int (length vs)"
       "0 \<le> c_target e" "c_target e < int (length vs)"
    by (simp_all add: ep parts(3))
qed

theorem chord_indices_in_range_witness:
  "set_order remdups
   \<and> create_vertex_and_chord_lists remdups (scenario_frame ''s1'' ''s2'')
       = Inr (scenario_vertices, scenario_chords)
   \<and> create_vertex_and_chord_lists remdups (scenario_frame ''s1'' ''s2'') \<noteq> Inl ValueError_index
   \<and> list_all (\<lambda>e. 0 \<le> c_source e \<and> c_source e < int (length scenario_vertices)
                  \<and> 0 \<le> c_target e \<and> c_target e < int (length scenario_vertices))
        scenario_chords"
  using chord_indices_in_range [OF set_order_remdups, of "scenario_frame ''s1'' ''s2''"]
    set_order_remdups scenario_run
  by (simp add: list_all_iff)

subsection \<open>The end-to-end scenario, determinism, partiality and self-loops\<close>

lemma scenario_union_labels:
  "union_labels_of (scenario_frame b1 b2) = [''1 Alpha'', ''2 Beta'', ''3 Gamma'']"
proof -
  have "sort_key key_of (remdups [''1 Alpha'', ''2 Beta'', ''2 Beta'', ''1 Alpha'', ''3 Gamma''])
          = [''1 Alpha'', ''2 Beta'', ''3 Gamma'']"
    by code_simp
  then show ?thesis
    by (simp add: union_labels_of_def all_labels_def scenario_frame_def)
qed

lemma scenario_chord_list:
  "map (chord_of [''1 Alpha'', ''2 Beta'', ''3 Gamma''])
     [(''1 Alpha'', ''2 Beta''), (''2 Beta'', ''1 Alpha''), (''2 Beta'', ''3 Gamma'')]
   = scenario_chords"
  by code_simp

text \<open>
  Claim C5. On the table of the two records (sponsor \<open>1 Alpha\<close>, co-sponsors \<open>2 Beta\<close>)
  and (sponsor \<open>2 Beta\<close>, co-sponsors \<open>1 Alpha\<close>, \<open>3 Gamma\<close>), whatever their bill
  identifiers and whatever the iteration order of the sets, the builder returns the
  vertices \<open>1 Alpha\<close>, \<open>2 Beta\<close>, \<open>3 Gamma\<close> and the chords (0, 1, 1), (1, 0, 1),
  (1, 2, 1), in this order.
\<close>

theorem end_to_end_scenario:
  assumes "set_order py_set"
  shows "create_vertex_and_chord_lists py_set
           [\<lparr>Sponsor = ''1 Alpha'', Cosponsor = [''2 Beta''], Bill = b1\<rparr>,
            \<lparr>Sponsor = ''2 Beta'', Cosponsor = [''1 Alpha'', ''3 Gamma''], Bill = b2\<rparr>]
         = Inr ([\<lparr>v_group = 0, v_name = ''1 Alpha''\<rparr>,
                 \<lparr>v_group = 0, v_name = ''2 Beta''\<rparr>,
                 \<lparr>v_group = 0, v_name = ''3 Gamma''\<rparr>],
                [\<lparr>c_source = 0, c_target = 1, c_value = 1\<rparr>,
                 \<lparr>c_source = 1, c_target = 0, c_value = 1\<rparr>,
                 \<lparr>c_source = 1, c_target = 2, c_value = 1\<rparr>])"
proof -
  have p: "sponsor_pairs (scenario_frame b1 b2)
             = [(''1 Alpha'', ''2 Beta''), (''2 Beta'', ''1 Alpha''), (''2 Beta'', ''3 Gamma'')]"
    by (simp add: sponsor_pairs_def scenario_frame_def)
  have "create_vertex_and_chord_lists py_set (scenario_frame b1 b2)
          = Inr (map vertex_of [''1 Alpha'', ''2 Beta'', ''3 Gamma''], scenario_chords)"
    by (simp only: create_ok [OF assms scenario_labels_ok] scenario_union_labels p
          scenario_chord_list)
  then show ?thesis
    by (simp add: scenario_frame_def scenario_chords_def vertex_of_def)
qed

theorem end_to_end_scenario_witness:
  "set_order (\<lambda>xs. rev (remdups xs))
   \<and> create_vertex_and_chord_lists (\<lambda>xs. rev (remdups xs))
           [\<lparr>Sponsor = ''1 Alpha'', Cosponsor = [''2 Beta''], Bill = ''s1''\<rparr>,
            \<lparr>Sponsor = ''2 Beta'', Cosponsor = [''1 Alpha'', ''3 Gamma''], Bill = ''s2''\<rparr>]
         = Inr ([\<lparr>v_group = 0, v_name = ''1 Alpha''\<rparr>,
                 \<lparr>v_group = 0, v_name = ''2 Beta''\<rparr>,
                 \<lparr>v_group = 0, v_name = ''3 Gamma''\<rparr>],
                [\<lparr>c_source = 0, c_target = 1, c_value = 1\<rparr>,
                 \<lparr>c_source = 1, c_target = 0, c_value = 1\<rparr>,
                 \<lparr>c_source = 1, c_target = 2, c_value = 1\<rparr>])"
proof -
  note run = end_to_end_scenario [OF set_order_rev_remdups, of "''s1''" "''s2''"]
  from set_order_rev_remdups run show ?thesis ..
qed

text \<open>
  Claim C8. The outcome does not depend on the iteration order of the sets: under any two
  orders the builder returns the same pair of lists, or raises under both.
\<close>

theorem graph_lists_deterministic:
  assumes "set_order py_set" and "set_order py_set'"
  shows "(create_vertex_and_chord_lists py_set d_frame = Inr r
            \<longleftrightarrow> create_vertex_and_chord_lists py_set' d_frame = Inr r)
       \<and> ((\<exists>e. create_vertex_and_chord_lists py_set d_frame = Inl e)
            \<longleftrightarrow> (\<exists>e. create_vertex_and_chord_lists py_set' d_frame = Inl e))"
proof -
  have a: "create_vertex_and_chord_lists py_set d_frame = Inr r
            \<longleftrightarrow> create_vertex_and_chord_lists py_set' d_frame = Inr r" for r
    by (simp only: create_Inr_iff [OF assms(1)] create_Inr_iff [OF assms(2)])
  have b: "(\<exists>e. f = Inl e) \<longleftrightarrow> \<not> (\<exists>r. f = Inr r)"
    for f :: "pyerror + (vertex list \<times> chord list)"
    by (cases f) simp_all
  from a show ?thesis by (simp only: b)
qed

theorem graph_lists_deterministic_witness:
  "set_order remdups \<and> set_order (\<lambda>xs. rev (remdups xs))
   \<and> create_vertex_and_chord_lists remdups (scenario_frame ''s1'' ''s2'')
        = Inr (scenario_vertices, scenario_chords)
   \<and> create_vertex_and_chord_lists (\<lambda>xs. rev (remdups xs)) (scenario_frame ''s1'' ''s2'')
        = Inr (scenario_vertices, scenario_chords)"
  using graph_lists_deterministic [OF set_order_remdups set_order_rev_remdups,
      of "scenario_frame ''s1'' ''s2''" "(scenario_vertices, scenario_chords)"]
    set_order_remdups set_order_rev_remdups scenario_run
  by simp

text \<open>
  Which exception is raised can depend on the iteration order: the key of the first bad
  label in that order raises.
\<close>

lemma raised_exception_follows_set_order:
  "create_vertex_and_chord_lists remdups raising_frame = Inl IndexError"
  "create_vertex_and_chord_lists (\<lambda>xs. rev (remdups xs)) raising_frame = Inl ValueError_int"
  by code_simp+

text \<open>
  Claim C10. Whenever the builder returns and a record's sponsor is among that record's
  co-sponsors, the chord list has a chord with equal source and target and value 1, at
  the position of that sponsor in the vertex list.
\<close>

theorem self_loops_not_filtered:
  assumes "set_order py_set"
    and "create_vertex_and_chord_lists py_set d_frame = Inr (vs, es)"
    and "r \<in> set d_frame" and "Sponsor r \<in> set (Cosponsor r)"
  shows "\<exists>e\<in>set es. c_source e = c_target e \<and> c_value e = 1
           \<and> v_name (vs ! nat (c_source e)) = Sponsor r"
proof -
  note parts = create_Inr_parts [OF assms(1,2)]
  let ?ls = "union_labels_of d_frame" and ?p = "(Sponsor r, Sponsor r)"
  from assms(3,4) have p: "?p \<in> set (sponsor_pairs d_frame)"
    by (auto simp: sponsor_pairs_def)
  then have "chord_of ?ls ?p \<in> set es"
    by (simp add: parts(2))
  moreover have "c_source (chord_of ?ls ?p) = c_target (chord_of ?ls ?p)"
    and "c_value (chord_of ?ls ?p) = 1"
    by (simp_all add: chord_of_def)
  moreover have "v_name (vs ! nat (c_source (chord_of ?ls ?p))) = Sponsor r"
  proof -
    from set_sponsor_pairs [OF p] have m: "Sponsor r \<in> set ?ls" by simp
    then have "nat (index_of ?ls (Sponsor r)) < length vs"
      using index_of_bounds [OF m] by (simp add: parts(3) nat_less_iff)
    then have "v_name (vs ! nat (index_of ?ls (Sponsor r)))
                 = map v_name vs ! nat (index_of ?ls (Sponsor r))"
      by simp
    also have "\<dots> = Sponsor r"
      by (simp only: parts(1) index_of_nth [OF m])
    finally show ?thesis by (simp add: chord_of_def)
  qed
  ultimately show ?thesis by blast
qed

lemma self_loop_run:
  "create_vertex_and_chord_lists remdups self_loop_frame
     = Inr ([\<lparr>v_group = 0, v_name = ''7 Jones''\<rparr>, \<lparr>v_group = 0, v_name = ''Abel''\<rparr>],
            [\<lparr>c_source = 1, c_target = 0, c_value = 1\<rparr>,
             \<lparr>c_source = 1, c_target = 1, c_value = 1\<rparr>])"
  by code_simp

theorem self_loops_not_filtered_witness:
  "set_order remdups
   \<and> create_vertex_and_chord_lists remdups self_loop_frame
     = Inr ([\<lparr>v_group = 0, v_name = ''7 Jones''\<rparr>, \<lparr>v_group = 0, v_name = ''Abel''\<rparr>],
            [\<lparr>c_source = 1, c_target = 0, c_value = 1\<rparr>,
             \<lparr>c_source = 1, c_target = 1, c_value = 1\<rparr>])
   \<and> hd self_loop_frame \<in> set self_loop_frame
   \<and> Sponsor (hd self_loop_frame) \<in> set (Cosponsor (hd self_loop_frame))
   \<and> (\<exists>e. e \<in> set [\<lparr>c_source = 1, c_target = 0, c_value = 1\<rparr>,
                     \<lparr>c_source = 1, c_target = 1, c_value = 1\<rparr>]
          \<and> c_source e = c_target e \<and> c_value e = 1)"
proof -
  have a: "hd self_loop_frame \<in> set self_loop_frame"
    and b: "Sponsor (hd self_loop_frame) \<in> set (Cosponsor (hd self_loop_frame))"
    by (simp_all add: self_loop_frame_def)
  from self_loops_not_filtered [OF set_order_remdups self_loop_run a b]
  have "\<exists>e. e \<in> set [\<lparr>c_source = 1, c_target = 0, c_value = 1\<rparr>,
                     \<lparr>c_source = 1, c_target = 1, c_value = 1\<rparr>]
          \<and> c_source e = c_target e \<and> c_value e = 1"
    by blast
  with set_order_remdups self_loop_run a b show ?thesis by blast
qed

text \<open>
  Claim C9. The sort key is partial. It has a value exactly on the labels that are not
  empty and whose text up to the first space parses as an integer whenever their first
  character is a digit, and there the value is the pair of the label's number (infinity
  if it has none) and the label; on the empty label \<open>item[0]\<close> raises, on \<open>3rd Reading\<close>
  \<open>int\<close> raises. The builder returns exactly when every label of the frame is of that
  kind, and otherwise ends in one of these two exceptions.
\<close>

theorem sort_key_partial:
  assumes "set_order py_set"
  shows "((\<exists>k. label_key item = Inr k) \<longleftrightarrow> label_ok item)
       \<and> (label_ok item \<longrightarrow>
            label_key item
              = Inr (case numeric_prefix item of Some n \<Rightarrow> PyInt n | None \<Rightarrow> PyInf, item))
       \<and> label_key [] = Inl IndexError
       \<and> label_key ''3rd Reading'' = Inl ValueError_int
       \<and> ((\<exists>r. create_vertex_and_chord_lists py_set d_frame = Inr r)
            \<longleftrightarrow> (\<forall>l\<in>set (all_labels d_frame). label_ok l))
       \<and> (\<forall>e. create_vertex_and_chord_lists py_set d_frame = Inl e \<longrightarrow>
             (e = IndexError \<or> e = ValueError_int)
             \<and> (\<exists>l\<in>set (all_labels d_frame). \<not> label_ok l))"
proof (intro conjI allI impI)
  show "(\<exists>k. label_key item = Inr k) \<longleftrightarrow> label_ok item"
    by (simp add: label_key_Inr_iff)
  show "label_ok item \<Longrightarrow>
          label_key item
            = Inr (case numeric_prefix item of Some n \<Rightarrow> PyInt n | None \<Rightarrow> PyInf, item)"
    by (simp add: label_key_ok key_of_numeric_prefix)
  show "label_key [] = Inl IndexError"
    by (simp add: label_key_def)
  show "label_key ''3rd Reading'' = Inl ValueError_int"
    by code_simp
  show "(\<exists>r. create_vertex_and_chord_lists py_set d_frame = Inr r)
            \<longleftrightarrow> (\<forall>l\<in>set (all_labels d_frame). label_ok l)"
    by (simp add: create_Inr_iff [OF assms])
next
  fix e
  assume fail: "create_vertex_and_chord_lists py_set d_frame = Inl e"
  have "\<not> (\<forall>l\<in>set (all_labels d_frame). label_ok l)"
  proof
    assume "\<forall>l\<in>set (all_labels d_frame). label_ok l"
    from create_ok [OF assms this] fail show False by simp
  qed
  then obtain l where l: "l \<in> set (all_labels d_frame)" "\<not> label_ok l" by blast
  from create_not_ok [OF assms l] fail show "e = IndexError \<or> e = ValueError_int"
    by auto
  from l show "\<exists>l\<in>set (all_labels d_frame). \<not> label_ok l" by blast
qed

theorem sort_key_partial_witness:
  "set_order remdups
   \<and> label_ok ''10 Jones'' \<and> label_key ''10 Jones'' = Inr (PyInt 10, ''10 Jones'')
   \<and> \<not> label_ok [] \<and> label_key [] = Inl IndexError
   \<and> \<not> label_ok ''3rd Reading'' \<and> label_key ''3rd Reading'' = Inl ValueError_int
   \<and> \<not> label_ok separator_label \<and> label_key separator_label = Inl ValueError_int
   \<and> label_ok nbsp_label \<and> label_key nbsp_label = Inr (PyInt 7, nbsp_label)
   \<and> list_all label_ok (all_labels (scenario_frame ''s1'' ''s2''))
   \<and> create_vertex_and_chord_lists remdups (scenario_frame ''s1'' ''s2'')
        = Inr (scenario_vertices, scenario_chords)
   \<and> \<not> list_all label_ok (all_labels raising_frame)
   \<and> create_vertex_and_chord_lists remdups raising_frame = Inl IndexError"
proof -
  note t = sort_key_partial [OF set_order_remdups]
  have k: "numeric_prefix ''10 Jones'' = Some 10" by code_simp
  have "label_ok ''10 Jones''" by code_simp
  with t [of "''10 Jones''" raising_frame] k
  have a: "label_ok ''10 Jones'' \<and> label_key ''10 Jones'' = Inr (PyInt 10, ''10 Jones'')"
    by simp
  from t [of "[]" raising_frame]
  have b: "\<not> label_ok [] \<and> label_key [] = Inl IndexError" by auto
  from t [of "''3rd Reading''" raising_frame]
  have c: "\<not> label_ok ''3rd Reading'' \<and> label_key ''3rd Reading'' = Inl ValueError_int"
    by auto
  have "label_key separator_label = Inl ValueError_int" by code_simp
  with t [of separator_label raising_frame]
  have c': "\<not> label_ok separator_label \<and> label_key separator_label = Inl ValueError_int"
    by auto
  have kn: "numeric_prefix nbsp_label = Some 7" by code_simp
  have "label_ok nbsp_label" by code_simp
  with t [of nbsp_label raising_frame] kn
  have c'': "label_ok nbsp_label \<and> label_key nbsp_label = Inr (PyInt 7, nbsp_label)"
    by simp
  from t [of "[]" "scenario_frame ''s1'' ''s2''"] scenario_run
  have d: "list_all label_ok (all_labels (scenario_frame ''s1'' ''s2''))"
    by (simp add: list_all_iff)
  from t [of "[]" raising_frame] raised_exception_follows_set_order(1)
  have e: "\<not> list_all label_ok (all_labels raising_frame)"
    by (simp add: list_all_iff)
  from set_order_remdups a b c c' c'' d e scenario_run raised_exception_follows_set_order(1)
  show ?thesis by blast
qed

subsection \<open>The label ordering\<close>

lemma py_sorted_order:
  assumes "\<forall>x\<in>set xs. label_ok x"
  shows "\<exists>ys. py_sorted xs = Inr ys \<and> mset ys = mset xs
           \<and> sorted_wrt (\<lambda>x y. \<not> label_less y x) ys"
proof -
  let ?ys = "sort_key key_of xs"
  have "sorted (map key_of ?ys)" by simp
  then have "sorted_wrt (\<lambda>x y. key_of x \<le> key_of y) ?ys"
    by (simp add: sorted_map)
  then have "sorted_wrt (\<lambda>x y. \<not> label_less y x) ?ys"
    using assms by (elim sorted_wrt_mono_rel [rotated]) (simp add: label_less_ok not_less)
  then show ?thesis
    by (simp add: py_sorted_ok [OF assms])
qed

text \<open>
  Claim C4, as amended. For two labels on which the sort key is defined: if both begin
  with a digit, they are ordered by the integer value of their text up to the first space,
  and by string comparison of the whole labels when these values are equal; a label that
  begins with a digit sorts before every label that does not; two labels that do not
  begin with a digit are ordered by string comparison. A list of such labels sorts to a
  permutation of itself in which no label is followed by a smaller one, and the labels
  \<open>3 Smith\<close>, \<open>10 Jones\<close>, \<open>Abel\<close> sort to this order.
\<close>

theorem label_ordering_rule:
  assumes "label_ok a" and "label_ok b"
  shows "(py_isdigit (hd a) \<and> py_isdigit (hd b) \<longrightarrow>
            (\<exists>m n. py_int (partition_head a) = Some m \<and> py_int (partition_head b) = Some n
                \<and> (label_less a b \<longleftrightarrow> m < n \<or> (m = n \<and> a < b))))
       \<and> (py_isdigit (hd a) \<and> \<not> py_isdigit (hd b) \<longrightarrow> label_less a b \<and> \<not> label_less b a)
       \<and> (\<not> py_isdigit (hd a) \<and> \<not> py_isdigit (hd b) \<longrightarrow> (label_less a b \<longleftrightarrow> a < b))
       \<and> ((\<forall>x\<in>set xs. label_ok x) \<longrightarrow>
            (\<exists>ys. py_sorted xs = Inr ys \<and> mset ys = mset xs
               \<and> sorted_wrt (\<lambda>x y. \<not> label_less y x) ys))
       \<and> py_sorted [''3 Smith'', ''10 Jones'', ''Abel''] = Inr [''3 Smith'', ''10 Jones'', ''Abel'']
       \<and> py_sorted [''Abel'', ''10 Jones'', ''3 Smith''] = Inr [''3 Smith'', ''10 Jones'', ''Abel'']"
proof (intro conjI impI)
  note ll = label_less_ok [OF assms] label_less_ok [OF assms(2,1)]
  show "\<exists>m n. py_int (partition_head a) = Some m \<and> py_int (partition_head b) = Some n
                \<and> (label_less a b \<longleftrightarrow> m < n \<or> (m = n \<and> a < b))"
    if "py_isdigit (hd a) \<and> py_isdigit (hd b)"
  proof -
    from that key_of_digit [OF assms(1)] key_of_digit [OF assms(2)]
    obtain m n where "py_int (partition_head a) = Some m" "key_of a = (PyInt m, a)"
      "py_int (partition_head b) = Some n" "key_of b = (PyInt n, b)"
      by blast
    then show ?thesis by (auto simp: ll)
  qed
  show "label_less a b" "\<not> label_less b a" if "py_isdigit (hd a) \<and> \<not> py_isdigit (hd b)"
  proof -
    from that key_of_digit [OF assms(1)] obtain m where "key_of a = (PyInt m, a)" by blast
    moreover from that have "key_of b = (PyInf, b)" by (simp add: key_of_other [OF assms(2)])
    ultimately show "label_less a b" "\<not> label_less b a" by (simp_all add: ll)
  qed
  show "label_less a b \<longleftrightarrow> a < b" if "\<not> py_isdigit (hd a) \<and> \<not> py_isdigit (hd b)"
    using that by (simp add: ll key_of_other assms)
  show "\<exists>ys. py_sorted xs = Inr ys \<and> mset ys = mset xs
               \<and> sorted_wrt (\<lambda>x y. \<not> label_less y x) ys"
    if "\<forall>x\<in>set xs. label_ok x"
    using that by (rule py_sorted_order)
  show "py_sorted [''3 Smith'', ''10 Jones'', ''Abel''] = Inr [''3 Smith'', ''10 Jones'', ''Abel'']"
    by code_simp
  show "py_sorted [''Abel'', ''10 Jones'', ''3 Smith''] = Inr [''3 Smith'', ''10 Jones'', ''Abel'']"
    by code_simp
qed

theorem label_ordering_rule_witness:
  "label_ok ''3 Smith'' \<and> label_ok ''10 Jones'' \<and> label_ok ''Abel'' \<and> label_ok ''Zorn''
   \<and> label_less ''3 Smith'' ''10 Jones''
   \<and> label_less ''10 Jones'' ''Abel''
   \<and> label_less ''Abel'' ''Zorn''
   \<and> py_sorted [''Zorn'', ''10 Jones'', ''Abel'', ''3 Smith'']
        = Inr [''3 Smith'', ''10 Jones'', ''Abel'', ''Zorn'']"
proof -
  have ok: "label_ok ''3 Smith''" "label_ok ''10 Jones''" "label_ok ''Abel''" "label_ok ''Zorn''"
    by code_simp+
  have d: "py_isdigit (hd ''3 Smith'')" "py_isdigit (hd ''10 Jones'')"
    "\<not> py_isdigit (hd ''Abel'')" "\<not> py_isdigit (hd ''Zorn'')"
    by code_simp+
  have v: "py_int (partition_head ''3 Smith'') = Some 3"
    "py_int (partition_head ''10 Jones'') = Some 10"
    by code_simp+
  have s: "''Abel'' < ''Zorn''" by code_simp
  from label_ordering_rule [OF ok(1) ok(2), of "[]"] d v
  have a: "label_less ''3 Smith'' ''10 Jones''" by simp
  from label_ordering_rule [OF ok(2) ok(3), of "[]"] d
  have b: "label_less ''10 Jones'' ''Abel''" by simp
  from label_ordering_rule [OF ok(3) ok(4), of "[]"] d s
  have c: "label_less ''Abel'' ''Zorn''" by simp
  have r: "py_sorted [''Zorn'', ''10 Jones'', ''Abel'', ''3 Smith'']
        = Inr [''3 Smith'', ''10 Jones'', ''Abel'', ''Zorn'']"
    by code_simp
  from ok a b c r show ?thesis by blast
qed

theorem label_ordering_counterexample:
  "py_int (partition_head ''5 Jones'') = Some 5
   \<and> py_int (partition_head ''3rd Reading'') = None
   \<and> py_sorted [''5 Jones'', ''3rd Reading''] = Inl ValueError_int
   \<and> py_sorted [''3rd Reading'', ''5 Jones''] = Inl ValueError_int
   \<and> \<not> label_less ''5 Jones'' ''3rd Reading''"
  by code_simp

section \<open>The table builder\<close>

lemma getitem_key_Inr_iff: "getitem_key v k = Inr x \<longleftrightarrow> field v k = Some x"
  by (cases v) (auto split: option.splits)

lemma getitem_key_Inl: "getitem_key v k = Inl e \<Longrightarrow> field v k = None \<and> schema_error e"
  by (cases v) (auto simp: schema_error_def split: option.splits)

lemma getitem_key_None: "field v k = None \<Longrightarrow> \<exists>e. getitem_key v k = Inl e \<and> schema_error e"
  by (cases "getitem_key v k") (auto simp: getitem_key_Inr_iff dest: getitem_key_Inl)

lemma those_map_Some_iff:
  "those (map f xs) = Some ys \<longleftrightarrow> list_all2 (\<lambda>x y. f x = Some y) xs ys"
proof (induction xs arbitrary: ys)
  case Nil
  show ?case by auto
next
  case (Cons x xs)
  show ?case
    by (cases ys) (auto simp: Cons.IH split: option.splits)
qed

lemma names_Inr_iff:
  "map_raise (\<lambda>c. getitem_key c k) xs = Inr ns \<longleftrightarrow> those (map (\<lambda>c. field c k) xs) = Some ns"
  by (simp add: map_raise_Inr_iff those_map_Some_iff getitem_key_Inr_iff)

lemma names_Inl:
  assumes "map_raise (\<lambda>c. getitem_key c k) xs = Inl e"
  shows "schema_error e"
proof -
  from map_raise_Inl [of "\<lambda>c. getitem_key c k" xs e, OF assms]
  obtain c where "getitem_key c k = Inl e" by blast
  then show ?thesis by (simp add: getitem_key_Inl)
qed

lemma map_raise_cong:
  "(\<And>x. x \<in> set xs \<Longrightarrow> f x = g x) \<Longrightarrow> map_raise f xs = map_raise g xs"
  by (induction xs) (auto split: sum.splits)

lemma map_raise_map: "map_raise f (map h xs) = map_raise (\<lambda>x. f (h x)) xs"
  by (induction xs) (auto split: sum.splits)

lemma map_raise_upt:
  assumes "\<And>i. i < length xs \<Longrightarrow> f i = g (xs ! i)"
  shows "map_raise f [0..<length xs] = map_raise g xs"
proof -
  have "map_raise g xs = map_raise g (map (\<lambda>i. xs ! i) [0..<length xs])"
    by (simp only: map_nth)
  also have "\<dots> = map_raise (\<lambda>i. g (xs ! i)) [0..<length xs]"
    by (rule map_raise_map)
  also have "\<dots> = map_raise f [0..<length xs]"
    by (rule map_raise_cong) (simp add: assms)
  finally show ?thesis by simp
qed

lemma elements_Some:
  "elements cs = Some xs \<Longrightarrow>
   py_len cs = Inr (length xs) \<and> (\<forall>i<length xs. getitem_index cs i = Inr (xs ! i))"
  by (cases cs) (auto split: if_splits)

lemma elements_None:
  "elements cs = None \<Longrightarrow>
   py_len cs = Inl TypeError
   \<or> (\<exists>n. py_len cs = Inr (Suc n) \<and> getitem_index cs 0 = Inl KeyError)"
proof (cases cs)
  case (JObj kvs)
  assume "elements cs = None"
  with JObj have "kvs \<noteq> []" by (auto split: if_splits)
  then have "remdups (map fst kvs) \<noteq> []" by simp
  then obtain n where "length (remdups (map fst kvs)) = Suc n"
    by (cases "remdups (map fst kvs)") auto
  with JObj show ?thesis by simp
qed auto

lemma cosponsor_names_elements:
  assumes "field r ''cosponsors'' = Some cs" and "elements cs = Some xs"
  shows "cosponsor_names r = map_raise (\<lambda>c. getitem_key c ''name'') xs"
proof -
  from assms(1) have g: "getitem_key r ''cosponsors'' = Inr cs"
    by (simp add: getitem_key_Inr_iff)
  note el = elements_Some [OF assms(2)]
  have "cosponsor_name r i = getitem_key (xs ! i) ''name''" if "i < length xs" for i
    using that el by (simp add: cosponsor_name_def g)
  then have "map_raise (cosponsor_name r) [0..<length xs]
               = map_raise (\<lambda>c. getitem_key c ''name'') xs"
    by (rule map_raise_upt)
  then show ?thesis
    using el by (simp add: cosponsor_names_def g)
qed

lemma cosponsor_names_no_elements:
  assumes "field r ''cosponsors'' = Some cs" and "elements cs = None"
  shows "\<exists>e. cosponsor_names r = Inl e \<and> schema_error e"
proof -
  from assms(1) have g: "getitem_key r ''cosponsors'' = Inr cs"
    by (simp add: getitem_key_Inr_iff)
  from elements_None [OF assms(2)] show ?thesis
  proof
    assume "py_len cs = Inl TypeError"
    then show ?thesis by (simp add: cosponsor_names_def g schema_error_def)
  next
    assume "\<exists>n. py_len cs = Inr (Suc n) \<and> getitem_index cs 0 = Inl KeyError"
    then obtain n where n: "py_len cs = Inr (Suc n)" "getitem_index cs 0 = Inl KeyError"
      by blast
    have "cosponsor_name r 0 = Inl KeyError"
      by (simp add: cosponsor_name_def g n(2))
    then have "map_raise (cosponsor_name r) [0..<Suc n] = Inl KeyError"
      by (simp add: upt_rec)
    then show ?thesis by (simp add: cosponsor_names_def g n(1) schema_error_def)
  qed
qed

lemma cosponsor_names_no_key:
  assumes "field r ''cosponsors'' = None"
  shows "\<exists>e. cosponsor_names r = Inl e \<and> schema_error e"
proof -
  from getitem_key_None [OF assms] obtain e
    where "getitem_key r ''cosponsors'' = Inl e" "schema_error e" by blast
  then show ?thesis by (simp add: cosponsor_names_def)
qed

lemma has_fields_iff: "has_fields r \<longleftrightarrow> expected_row r \<noteq> None"
proof -
  have "list_all (\<lambda>c. f c \<noteq> None) xs \<longleftrightarrow> those (map f xs) \<noteq> None"
    for f :: "json \<Rightarrow> json option" and xs
    by (induction xs) (auto split: option.splits)
  then show ?thesis
    by (auto simp: has_fields_def expected_row_def split: option.splits)
qed

lemma record_tuple_expected:
  assumes "expected_row r = Some row"
  shows "record_tuple r = Inr row"
proof -
  from assms obtain s sponsor_name cs xs names bill_id where
    f: "field r ''sponsor'' = Some s" "field s ''name'' = Some sponsor_name"
       "field r ''cosponsors'' = Some cs" "elements cs = Some xs"
       "those (map (\<lambda>c. field c ''name'') xs) = Some names"
       "field r ''bill_id'' = Some bill_id"
    and row: "row = \<lparr>Sponsor = sponsor_name, Cosponsor = names, Bill = bill_id\<rparr>"
    by (auto simp: expected_row_def split: option.splits)
  have "cosponsor_names r = Inr names"
    by (simp only: cosponsor_names_elements [OF f(3,4)] names_Inr_iff f(5))
  moreover have "getitem_key r ''sponsor'' = Inr s" "getitem_key s ''name'' = Inr sponsor_name"
    "getitem_key r ''bill_id'' = Inr bill_id"
    using f by (simp_all add: getitem_key_Inr_iff)
  ultimately show ?thesis
    by (simp add: record_tuple_def row)
qed

lemma record_tuple_Inl:
  assumes "record_tuple r = Inl e"
  shows "schema_error e"
proof (cases "getitem_key r ''sponsor''")
  case (Inl e1)
  with assms getitem_key_Inl [OF Inl] show ?thesis by (simp add: record_tuple_def)
next
  case s: (Inr s)
  show ?thesis
  proof (cases "getitem_key s ''name''")
    case (Inl e2)
    with assms s getitem_key_Inl [OF Inl] show ?thesis by (simp add: record_tuple_def)
  next
    case n: (Inr sponsor_name)
    show ?thesis
    proof (cases "cosponsor_names r")
      case (Inl e3)
      have "schema_error e3"
      proof (cases "field r ''cosponsors''")
        case None
        from cosponsor_names_no_key [OF None] Inl show ?thesis by simp
      next
        case (Some cs)
        show ?thesis
        proof (cases "elements cs")
          case None
          from cosponsor_names_no_elements [OF Some None] Inl show ?thesis by simp
        next
          case el: (Some xs)
          from Inl have "map_raise (\<lambda>c. getitem_key c ''name'') xs = Inl e3"
            by (simp only: cosponsor_names_elements [OF Some el])
          then show ?thesis by (rule names_Inl)
        qed
      qed
      with assms s n Inl show ?thesis by (simp add: record_tuple_def)
    next
      case c: (Inr names)
      show ?thesis
      proof (cases "getitem_key r ''bill_id''")
        case (Inl e4)
        with assms s n c getitem_key_Inl [OF Inl] show ?thesis by (simp add: record_tuple_def)
      next
        case (Inr bill_id)
        with assms s n c show ?thesis by (simp add: record_tuple_def)
      qed
    qed
  qed
qed

lemma record_tuple_Inr:
  assumes "record_tuple r = Inr row"
  shows "expected_row r = Some row"
proof -
  from assms obtain s sponsor_name names bill_id where
    g: "getitem_key r ''sponsor'' = Inr s" "getitem_key s ''name'' = Inr sponsor_name"
       "cosponsor_names r = Inr names" "getitem_key r ''bill_id'' = Inr bill_id"
    and row: "row = \<lparr>Sponsor = sponsor_name, Cosponsor = names, Bill = bill_id\<rparr>"
    by (auto simp: record_tuple_def split: sum.splits)
  from g have f: "field r ''sponsor'' = Some s" "field s ''name'' = Some sponsor_name"
    "field r ''bill_id'' = Some bill_id"
    by (simp_all add: getitem_key_Inr_iff)
  obtain cs where cs: "field r ''cosponsors'' = Some cs"
    using cosponsor_names_no_key [of r] g(3) by (cases "field r ''cosponsors''") auto
  obtain xs where xs: "elements cs = Some xs"
    using cosponsor_names_no_elements [OF cs] g(3) by (cases "elements cs") auto
  from g(3) have "those (map (\<lambda>c. field c ''name'') xs) = Some names"
    by (simp only: cosponsor_names_elements [OF cs xs] names_Inr_iff)
  with f cs xs show ?thesis
    by (simp add: expected_row_def row)
qed

lemma record_tuple_Inr_iff: "record_tuple r = Inr row \<longleftrightarrow> expected_row r = Some row"
  using record_tuple_expected record_tuple_Inr by blast

lemma frame_Inr_iff:
  "filter_json_to_frame rows = Inr t \<longleftrightarrow> map expected_row rows = map Some t"
proof -
  have "list_all2 (\<lambda>r row. expected_row r = Some row) rows t
          \<longleftrightarrow> map expected_row rows = map Some t"
    by (induction rows arbitrary: t) (auto simp: list_all2_Cons1)
  then show ?thesis
    by (simp add: filter_json_to_frame_def map_raise_Inr_iff record_tuple_Inr_iff)
qed

lemma frame_Inl:
  assumes "filter_json_to_frame rows = Inl e"
  shows "schema_error e"
proof -
  from assms have "map_raise record_tuple rows = Inl e"
    by (simp add: filter_json_to_frame_def)
  from map_raise_Inl [of record_tuple rows e, OF this]
  obtain r where "record_tuple r = Inl e" by blast
  then show ?thesis by (rule record_tuple_Inl)
qed

lemma frame_total:
  assumes "\<forall>r\<in>set rows. has_fields r"
  shows "\<exists>t. filter_json_to_frame rows = Inr t"
proof -
  have "\<forall>r\<in>set rows. record_tuple r = Inr (the (expected_row r))"
    using assms by (auto simp: has_fields_iff record_tuple_Inr_iff)
  from map_raise_total [of rows record_tuple "\<lambda>r. the (expected_row r)", OF this]
  show ?thesis by (simp add: filter_json_to_frame_def)
qed

lemma frame_fails:
  assumes "r \<in> set rows" and "\<not> has_fields r"
  shows "\<exists>e. filter_json_to_frame rows = Inl e \<and> schema_error e"
proof (cases "filter_json_to_frame rows")
  case (Inl e)
  with frame_Inl [OF Inl] show ?thesis by simp
next
  case (Inr t)
  then have "map expected_row rows = map Some t" by (simp add: frame_Inr_iff)
  then have "expected_row ` set rows \<subseteq> Some ` set t"
    by (metis image_set order_refl)
  with assms show ?thesis by (auto simp: has_fields_iff)
qed

text \<open>
  Claim C6. If some record of the input lacks one of the fields \<open>sponsor.name\<close>,
  \<open>cosponsors[i].name\<close> or \<open>bill_id\<close>, \<open>filter_json_to_frame\<close> ends in the exception of
  the failed access (a \<open>KeyError\<close> or a \<open>TypeError\<close>) and returns no table. Otherwise it
  returns a table with one row per record, in input order, each row holding the sponsor
  name, the co-sponsor names and the bill identifier of its record.
\<close>

theorem table_builder_all_or_nothing:
  "((\<exists>r\<in>set rows. \<not> has_fields r) \<longrightarrow>
      (\<exists>e. filter_json_to_frame rows = Inl e \<and> schema_error e))
   \<and> ((\<forall>r\<in>set rows. has_fields r) \<longrightarrow>
      (\<exists>t. filter_json_to_frame rows = Inr t \<and> length t = length rows
          \<and> (\<forall>i<length rows. expected_row (rows ! i) = Some (t ! i))))
   \<and> (filter_json_to_frame rows = Inr t \<longleftrightarrow> map expected_row rows = map Some t)"
proof (intro conjI impI)
  assume "\<exists>r\<in>set rows. \<not> has_fields r"
  then show "\<exists>e. filter_json_to_frame rows = Inl e \<and> schema_error e"
    using frame_fails by blast
next
  assume "\<forall>r\<in>set rows. has_fields r"
  from frame_total [OF this] obtain t' where t': "filter_json_to_frame rows = Inr t'" ..
  then have m: "map expected_row rows = map Some t'" by (simp add: frame_Inr_iff)
  then have l: "length t' = length rows" by (metis length_map)
  have "expected_row (rows ! i) = Some (t' ! i)" if "i < length rows" for i
    using that l nth_map [of i rows expected_row] nth_map [of i t' Some] m by simp
  with t' l show "\<exists>t. filter_json_to_frame rows = Inr t \<and> length t = length rows
          \<and> (\<forall>i<length rows. expected_row (rows ! i) = Some (t ! i))"
    by blast
next
  show "filter_json_to_frame rows = Inr t \<longleftrightarrow> map expected_row rows = map Some t"
    by (rule frame_Inr_iff)
qed

theorem table_builder_all_or_nothing_witness:
  "has_fields record_s1 \<and> has_fields record_s2 \<and> \<not> has_fields record_no_bill
   \<and> filter_json_to_frame [record_s1, record_s2]
       = Inr [\<lparr>Sponsor = JStr ''1 Alpha'', Cosponsor = [JStr ''2 Beta''], Bill = JStr ''s1''\<rparr>,
              \<lparr>Sponsor = JStr ''2 Beta'', Cosponsor = [JStr ''1 Alpha'', JStr ''3 Gamma''],
               Bill = JStr ''s2''\<rparr>]
   \<and> filter_json_to_frame [record_s1, record_no_bill] = Inl KeyError
   \<and> schema_error KeyError"
proof -
  have h: "has_fields record_s1" "has_fields record_s2" "\<not> has_fields record_no_bill"
    by code_simp+
  have e: "map expected_row [record_s1, record_s2]
     = map Some [\<lparr>Sponsor = JStr ''1 Alpha'', Cosponsor = [JStr ''2 Beta''], Bill = JStr ''s1''\<rparr>,
              \<lparr>Sponsor = JStr ''2 Beta'', Cosponsor = [JStr ''1 Alpha'', JStr ''3 Gamma''],
               Bill = JStr ''s2''\<rparr>]"
    by code_simp
  have k: "filter_json_to_frame [record_s1, record_no_bill] = Inl KeyError"
    by code_simp
  note t1 = table_builder_all_or_nothing [of "[record_s1, record_s2]"
      "[\<lparr>Sponsor = JStr ''1 Alpha'', Cosponsor = [JStr ''2 Beta''], Bill = JStr ''s1''\<rparr>,
              \<lparr>Sponsor = JStr ''2 Beta'', Cosponsor = [JStr ''1 Alpha'', JStr ''3 Gamma''],
               Bill = JStr ''s2''\<rparr>]"]
  from t1 e have a: "filter_json_to_frame [record_s1, record_s2]
       = Inr [\<lparr>Sponsor = JStr ''1 Alpha'', Cosponsor = [JStr ''2 Beta''], Bill = JStr ''s1''\<rparr>,
              \<lparr>Sponsor = JStr ''2 Beta'', Cosponsor = [JStr ''1 Alpha'', JStr ''3 Gamma''],
               Bill = JStr ''s2''\<rparr>]"
    by blast
  from table_builder_all_or_nothing [of "[record_s1, record_no_bill]" "[]"] h(3) k
  have b: "schema_error KeyError" by auto
  from h a k b show ?thesis by blast
qed

section \<open>The fetcher\<close>

lemma collect_links_filter:
  "collect_links hrefs links = links @ filter (prefix ''s'') hrefs"
  by (induction hrefs arbitrary: links) simp_all

lemma get_single_vote_eq:
  "get_single_vote g link requested = (requested @ [vote_url link], g (vote_url link))"
  by (simp add: get_single_vote_def Let_def)

lemma snd_get_votes:
  "snd (get_votes g links requested) = map_raise (\<lambda>link. g (vote_url link)) links"
proof (induction links arbitrary: requested)
  case Nil
  show ?case by simp
next
  case (Cons link links)
  show ?case
  proof (cases "g (vote_url link)")
    case (Inl e)
    then show ?thesis by (simp add: get_single_vote_eq)
  next
    case (Inr vote)
    obtain requested' res
      where r: "get_votes g links (requested @ [vote_url link]) = (requested', res)"
      by (cases "get_votes g links (requested @ [vote_url link])")
    with Cons.IH [of "requested @ [vote_url link]"]
    have m: "map_raise (\<lambda>link. g (vote_url link)) links = res" by simp
    from Inr r show ?thesis
      by (cases res) (simp_all add: get_single_vote_eq m)
  qed
qed

lemma fst_get_votes_prefix:
  "\<exists>k\<le>length links. fst (get_votes g links requested) = requested @ map vote_url (take k links)"
proof (induction links arbitrary: requested)
  case Nil
  show ?case by simp
next
  case (Cons link links)
  show ?case
  proof (cases "g (vote_url link)")
    case (Inl e)
    then have "fst (get_votes g (link # links) requested)
                 = requested @ map vote_url (take 1 (link # links))"
      by (simp add: get_single_vote_eq)
    then show ?thesis by (intro exI [of _ 1]) simp
  next
    case (Inr vote)
    from Cons.IH [of "requested @ [vote_url link]"] obtain k where k: "k \<le> length links"
      "fst (get_votes g links (requested @ [vote_url link]))
         = (requested @ [vote_url link]) @ map vote_url (take k links)"
      by blast
    from Inr k(2) have "fst (get_votes g (link # links) requested)
                 = requested @ map vote_url (take (Suc k) (link # links))"
      by (auto simp: get_single_vote_eq split: sum.splits prod.splits)
    with k(1) show ?thesis by (intro exI [of _ "Suc k"]) simp
  qed
qed

lemma fst_get_votes_all:
  "snd (get_votes g links requested) = Inr votes \<Longrightarrow>
   fst (get_votes g links requested) = requested @ map vote_url links"
proof (induction links arbitrary: requested votes)
  case Nil
  show ?case by simp
next
  case (Cons link links)
  from Cons.prems obtain vote where v: "g (vote_url link) = Inr vote"
    by (auto simp: get_single_vote_eq split: sum.splits prod.splits)
  with Cons.prems obtain votes' where
    "snd (get_votes g links (requested @ [vote_url link])) = Inr votes'"
    by (auto simp: get_single_vote_eq split: sum.splits prod.splits)
  from Cons.IH [OF this] v show ?case
    by (auto simp: get_single_vote_eq split: sum.splits prod.splits)
qed

text \<open>
  Claim C7. \<open>get_links\<close> keeps exactly the \<open>href\<close> values that begin with \<open>s\<close>, in page
  order, and requests the records of the first ten of them only, in that order, fewer if
  fewer qualify: the URLs it requests are an initial part of the URLs of these links, all
  of them when the run returns, and its result is the list of the records fetched.
\<close>

theorem fetcher_first_ten_links:
  "collect_links hrefs [] = filter (\<lambda>x. x \<noteq> [] \<and> hd x = CHR ''s'') hrefs
   \<and> snd (get_links http_get_json hrefs)
       = map_raise (\<lambda>link. http_get_json (vote_url link)) (take 10 (collect_links hrefs []))
   \<and> prefix (fst (get_links http_get_json hrefs))
        (map vote_url (take 10 (collect_links hrefs [])))
   \<and> (\<forall>votes. snd (get_links http_get_json hrefs) = Inr votes \<longrightarrow>
         fst (get_links http_get_json hrefs) = map vote_url (take 10 (collect_links hrefs []))
         \<and> length votes = min 10 (length (collect_links hrefs [])))"
proof (intro conjI allI impI)
  have "prefix ''s'' x \<longleftrightarrow> x \<noteq> [] \<and> hd x = CHR ''s''" for x :: string
    by (cases x) auto
  then have "prefix ''s'' = (\<lambda>x. x \<noteq> [] \<and> hd x = CHR ''s'')"
    by (intro ext)
  then show "collect_links hrefs [] = filter (\<lambda>x. x \<noteq> [] \<and> hd x = CHR ''s'') hrefs"
    by (simp add: collect_links_filter)
  let ?links = "take 10 (collect_links hrefs [])"
  show s: "snd (get_links http_get_json hrefs)
       = map_raise (\<lambda>link. http_get_json (vote_url link)) ?links"
    by (simp add: get_links_def snd_get_votes)
  from fst_get_votes_prefix [of ?links http_get_json "[]"]
  obtain k where "fst (get_votes http_get_json ?links []) = map vote_url (take k ?links)"
    by auto
  then have "fst (get_links http_get_json hrefs) = take k (map vote_url ?links)"
    by (simp add: get_links_def take_map)
  then show "prefix (fst (get_links http_get_json hrefs)) (map vote_url ?links)"
    by (simp only: take_is_prefix)
  fix votes
  assume r: "snd (get_links http_get_json hrefs) = Inr votes"
  then have "snd (get_votes http_get_json ?links []) = Inr votes"
    by (simp add: get_links_def)
  from fst_get_votes_all [OF this]
  show "fst (get_links http_get_json hrefs) = map vote_url ?links"
    by (simp add: get_links_def)
  from r s have "list_all2 (\<lambda>link v. http_get_json (vote_url link) = Inr v) ?links votes"
    by (simp add: map_raise_Inr_iff)
  from list_all2_lengthD [OF this] have "length votes = length ?links"
    by (rule sym)
  then show "length votes = min 10 (length (collect_links hrefs []))"
    by (simp add: min.commute)
qed

theorem fetcher_first_ten_links_witness:
  "collect_links index_hrefs []
     = [''s1/'', ''s2/'', ''s3/'', ''s4/'', ''s5/'', ''s6/'', ''s7/'', ''s8/'', ''s9/'',
        ''s10/'', ''s11/'', ''s12/'']
   \<and> snd (get_links echo_network index_hrefs)
       = Inr (map (\<lambda>link. JStr (vote_url link))
               [''s1/'', ''s2/'', ''s3/'', ''s4/'', ''s5/'', ''s6/'', ''s7/'', ''s8/'', ''s9/'',
                ''s10/''])
   \<and> fst (get_links echo_network index_hrefs)
       = map vote_url
           [''s1/'', ''s2/'', ''s3/'', ''s4/'', ''s5/'', ''s6/'', ''s7/'', ''s8/'', ''s9/'',
            ''s10/'']"
proof -
  have c: "collect_links index_hrefs []
     = [''s1/'', ''s2/'', ''s3/'', ''s4/'', ''s5/'', ''s6/'', ''s7/'', ''s8/'', ''s9/'',
        ''s10/'', ''s11/'', ''s12/'']"
    by code_simp
  note t = fetcher_first_ten_links [of index_hrefs echo_network]
  from t have "snd (get_links echo_network index_hrefs)
       = map_raise (\<lambda>link. echo_network (vote_url link)) (take 10 (collect_links index_hrefs []))"
    by blast
  then have s: "snd (get_links echo_network index_hrefs)
       = Inr (map (\<lambda>link. JStr (vote_url link))
               [''s1/'', ''s2/'', ''s3/'', ''s4/'', ''s5/'', ''s6/'', ''s7/'', ''s8/'', ''s9/'',
                ''s10/''])"
    by (simp add: c echo_network_def)
  with t have "fst (get_links echo_network index_hrefs)
                 = map vote_url (take 10 (collect_links index_hrefs []))"
    by blast
  then have f: "fst (get_links echo_network index_hrefs)
       = map vote_url
           [''s1/'', ''s2/'', ''s3/'', ''s4/'', ''s5/'', ''s6/'', ''s7/'', ''s8/'', ''s9/'',
            ''s10/'']"
    by (simp only: c) simp
  from c s f show ?thesis by blast
qed

end
